theory Spec2Isabelle
  imports Main "HOL-Library.AList"
begin

section \<open>The plan-to-graph renderer of \<open>src/mcp-n8n/src/server.ts\<close>\<close>

text \<open>
  The renderer \<open>renderWorkflow\<close> builds untyped JavaScript values (\<open>any[]\<close>, \<open>any\<close>), so
  the model builds values of a JavaScript value type. An object is the list of its own
  properties in insertion order. JavaScript enumerates keys that look like array
  indices before the others, in ascending order; the renderer reads objects by key
  only, and no statement below depends on the order in which an object with such keys
  is enumerated. The numbers the renderer writes are small integers; numbers inside
  step parameters are passed through untouched.
\<close>

subsection \<open>JavaScript values\<close>

datatype jsval =
    JUndefined
  | JNull
  | JBool bool
  | JNum int
  | JStr string
  | JArr "jsval list"
  | JObj "(string \<times> jsval) list"

datatype js_error = TypeError

text \<open>\<open>o.k\<close> on an object literal whose key is not a property of \<open>Object.prototype\<close>.\<close>

definition get_prop :: "jsval \<Rightarrow> string \<Rightarrow> jsval" where
  "get_prop v k = (case v of
       JObj ps \<Rightarrow> (case map_of ps k of Some x \<Rightarrow> x | None \<Rightarrow> JUndefined)
     | _ \<Rightarrow> JUndefined)"

text \<open>Truthiness, as \<open>||\<close>, \<open>&&\<close> and \<open>if\<close> read it.\<close>

fun truthy :: "jsval \<Rightarrow> bool" where
  "truthy JUndefined = False"
| "truthy JNull = False"
| "truthy (JBool b) = b"
| "truthy (JNum n) = (n \<noteq> 0)"
| "truthy (JStr s) = (s \<noteq> [])"
| "truthy (JArr xs) = True"
| "truthy (JObj ps) = True"

subsection \<open>\<open>String(n)\<close> for a non-negative integer\<close>

definition digit_char :: "nat \<Rightarrow> char" where
  "digit_char d = ''0123456789'' ! d"

fun String_of_number :: "nat \<Rightarrow> string" where
  "String_of_number n =
     (if n < 10 then [digit_char n]
      else String_of_number (n div 10) @ [digit_char (n mod 10)])"

declare String_of_number.simps [simp del]

subsection \<open>Plain objects used as dictionaries\<close>

text \<open>
  \<open>NODE_SPECS\<close>, \<open>idByStep\<close> and \<open>connections\<close> are plain objects (\<open>{ ... }\<close>, \<open>{}\<close>), so
  \<open>obj[k]\<close> finds an own property or, failing that, a property of \<open>Object.prototype\<close>.
\<close>

definition Object_prototype_keys :: "string list" where
  "Object_prototype_keys =
     [''constructor'', ''__proto__'', ''hasOwnProperty'', ''isPrototypeOf'',
      ''propertyIsEnumerable'', ''toLocaleString'', ''toString'', ''valueOf'',
      ''__defineGetter__'', ''__defineSetter__'', ''__lookupGetter__'',
      ''__lookupSetter__'']"

datatype 'a js_lookup = Own 'a | Inherited string | Missing

definition lookup_dict :: "(string \<times> 'a) list \<Rightarrow> string \<Rightarrow> 'a js_lookup" where
  "lookup_dict obj k =
     (case map_of obj k of
        Some v \<Rightarrow> Own v
      | None \<Rightarrow> if k \<in> set Object_prototype_keys then Inherited k else Missing)"

text \<open>
  \<open>obj[k] = v\<close> with \<open>v\<close> a string: an existing key keeps its place, a new key goes last,
  and the setter \<open>__proto__\<close> ignores a value that is not an object.
\<close>

definition assign_dict :: "(string \<times> 'a) list \<Rightarrow> string \<Rightarrow> 'a \<Rightarrow> (string \<times> 'a) list" where
  "assign_dict obj k v = (if k = ''__proto__'' then obj else AList.update k v obj)"

text \<open>
  An inherited property is a built-in function (the object \<open>Object.prototype\<close> itself for
  \<open>__proto__\<close>). Used as a property key it is converted to a string; this is the text
  Node.js gives.
\<close>

definition inherited_toString :: "string \<Rightarrow> string" where
  "inherited_toString k =
     (if k = ''__proto__'' then ''[object Object]''
      else ''function '' @ (if k = ''constructor'' then ''Object'' else k)
           @ ''() { [native code] }'')"

text \<open>
  The own enumerable properties that \<open>{ ...v }\<close> copies, and the spread itself: each
  property is defined on the target in order, a later one replacing an earlier one
  with the same key.
\<close>

fun own_props :: "jsval \<Rightarrow> (string \<times> jsval) list" where
  "own_props (JObj ps) = ps"
| "own_props (JArr xs) = zip (map String_of_number [0..<length xs]) xs"
| "own_props (JStr s) = zip (map String_of_number [0..<length s]) (map (\<lambda>c. JStr [c]) s)"
| "own_props _ = []"

definition spread :: "(string \<times> jsval) list \<Rightarrow> jsval \<Rightarrow> (string \<times> jsval) list" where
  "spread target v = fold (\<lambda>(k, x) acc. AList.update k x acc) (own_props v) target"

subsection \<open>The node catalogue \<open>NODE_SPECS\<close>\<close>

record NodeSpec =
  display :: string
  type :: string
  defaults :: "(string \<times> jsval) list"

definition Manual_Trigger_spec :: NodeSpec where
  "Manual_Trigger_spec =
     \<lparr>display = ''Manual Trigger'', type = ''n8n-nodes-base.manualTrigger'', defaults = []\<rparr>"

definition Cron_spec :: NodeSpec where
  "Cron_spec = \<lparr>display = ''Cron'', type = ''n8n-nodes-base.cron'', defaults = []\<rparr>"

definition Webhook_spec :: NodeSpec where
  "Webhook_spec =
     \<lparr>display = ''Webhook'', type = ''n8n-nodes-base.webhook'',
      defaults = [(''parameters'',
                   JObj [(''path'', JStr ''hook''), (''httpMethod'', JStr ''POST'')])]\<rparr>"

definition HTTP_Request_spec :: NodeSpec where
  "HTTP_Request_spec =
     \<lparr>display = ''HTTP Request'', type = ''n8n-nodes-base.httpRequest'', defaults = []\<rparr>"

definition NODE_SPECS :: "(string \<times> NodeSpec) list" where
  "NODE_SPECS =
     [(''Manual Trigger'', Manual_Trigger_spec),
      (''Cron'', Cron_spec),
      (''Webhook'', Webhook_spec),
      (''HTTP Request'', HTTP_Request_spec)]"

subsection \<open>The arguments \<open>RenderArgs\<close>\<close>

datatype trigger_kind = Manual | Cron | Webhook

record Step =
  id' :: "string option"
  type :: string
  parameters :: "(string \<times> jsval) list"
  dependsOn :: "string list option"

record RenderArgs =
  name :: string
  trigger :: trigger_kind
  cron :: "string option"
  steps :: "Step list"

subsection \<open>Building the graph\<close>

definition nextPos :: "nat \<Rightarrow> jsval" where
  "nextPos idx = JArr [JNum (280 + int idx * 220), JNum 300]"

definition triggerId :: string where
  "triggerId = ''1''"

text \<open>
  Phase 1, the trigger node. \<open>NODE_SPECS['Cron']\<close> and its like read a literal key of the
  catalogue, so the model names the entry. \<open>if (args.cron)\<close> holds for a string that is
  present and not empty; the assignment then replaces the value of the existing key
  \<open>parameters\<close>. The manual trigger gets no key \<open>parameters\<close> at all.
\<close>

definition trigger_node :: "RenderArgs \<Rightarrow> jsval" where
  "trigger_node args =
     (case trigger args of
        Manual \<Rightarrow>
          JObj [(''id'', JStr triggerId), (''name'', JStr ''Manual Trigger''),
                (''type'', JStr (NodeSpec.type Manual_Trigger_spec)),
                (''typeVersion'', JNum 1), (''position'', nextPos 0)]
      | Cron \<Rightarrow>
          (let node = [(''id'', JStr triggerId), (''name'', JStr ''Cron''),
                       (''type'', JStr (NodeSpec.type Cron_spec)),
                       (''typeVersion'', JNum 1),
                       (''parameters'',
                        JObj [(''triggerFunctions'',
                               JArr [JObj [(''function'', JStr ''everyMinute'')]])]),
                       (''position'', nextPos 0)]
           in case cron args of
                Some c \<Rightarrow>
                  if truthy (JStr c)
                  then JObj (AList.update ''parameters'' (JObj [(''rule'', JStr c)]) node)
                  else JObj node
              | None \<Rightarrow> JObj node)
      | Webhook \<Rightarrow>
          JObj [(''id'', JStr triggerId), (''name'', JStr ''Webhook''),
                (''type'', JStr (NodeSpec.type Webhook_spec)),
                (''typeVersion'', JNum 1),
                (''parameters'', get_prop (JObj (defaults Webhook_spec)) ''parameters''),
                (''position'', nextPos 0)])"

text \<open>
  Phase 2, one node per step. \<open>NODE_SPECS[s.type] || { ... }\<close> takes an own entry, makes
  one up for a name that is not found, and takes the inherited value for a name of
  \<open>Object.prototype\<close>: that value is truthy and has no \<open>defaults\<close>, so
  \<open>spec.defaults.parameters\<close> throws a TypeError.
  \<open>s.parameters\<close> is an object after parsing (default \<open>{}\<close>), hence truthy.
  The catalogue is a parameter here; \<open>step_node\<close> fixes it to \<open>NODE_SPECS\<close>.
\<close>

definition or_empty :: "jsval \<Rightarrow> jsval" where
  "or_empty v = (if truthy v then v else JObj [])"

definition step_node_in :: "(string \<times> NodeSpec) list \<Rightarrow> nat \<Rightarrow> Step \<Rightarrow> js_error + jsval" where
  "step_node_in specs order' s =
     (case lookup_dict specs (Step.type s) of
        Inherited k \<Rightarrow> Inl TypeError
      | found \<Rightarrow>
          (let spec = (case found of
                         Own sp \<Rightarrow> sp
                       | _ \<Rightarrow> \<lparr>display = Step.type s, NodeSpec.type = Step.type s,
                                defaults = []\<rparr>)
           in Inr (JObj
                [(''id'', JStr (String_of_number order')),
                 (''name'', JStr (Step.type s)),
                 (''type'', JStr (NodeSpec.type spec)),
                 (''typeVersion'', JNum 1),
                 (''parameters'',
                  JObj (spread
                          (spread [] (or_empty (get_prop (JObj (defaults spec)) ''parameters'')))
                          (or_empty (JObj (parameters s))))),
                 (''position'', nextPos (order' - 1))])))"

definition step_node :: "nat \<Rightarrow> Step \<Rightarrow> js_error + jsval" where
  "step_node order' s = step_node_in NODE_SPECS order' s"

text \<open>
  The object that \<open>spec.defaults.parameters || {}\<close> spreads for a step of type \<open>t\<close>: the
  \<open>parameters\<close> of the catalogue entry's defaults, nothing for a made-up entry.
\<close>

definition default_parameters :: "string \<Rightarrow> (string \<times> jsval) list" where
  "default_parameters t =
     (case map_of NODE_SPECS t of
        Some sp \<Rightarrow> own_props (or_empty (get_prop (JObj (defaults sp)) ''parameters''))
      | None \<Rightarrow> [])"

text \<open>The key under which a step is recorded: \<open>s.id || `${s.type}-${order}`\<close>.\<close>

definition step_key :: "nat \<Rightarrow> Step \<Rightarrow> string" where
  "step_key order' s =
     (case id' s of
        Some i \<Rightarrow> if truthy (JStr i) then i else Step.type s @ ''-'' @ String_of_number order'
      | None \<Rightarrow> Step.type s @ ''-'' @ String_of_number order')"

text \<open>
  The loop over \<open>args.steps\<close>; its state is \<open>order\<close>, \<open>idByStep\<close> and \<open>nodes\<close>.
\<close>

fun build_steps ::
  "Step list \<Rightarrow> nat \<Rightarrow> (string \<times> string) list \<Rightarrow> jsval list
   \<Rightarrow> js_error + (nat \<times> (string \<times> string) list \<times> jsval list)" where
  "build_steps [] order' idByStep nodes = Inr (order', idByStep, nodes)"
| "build_steps (s # ss) order' idByStep nodes =
     (let order'' = order' + 1;
          id = String_of_number order'';
          idByStep' = assign_dict idByStep (step_key order'' s) id
      in case step_node order'' s of
           Inl e \<Rightarrow> Inl e
         | Inr node \<Rightarrow> build_steps ss order'' idByStep' (nodes @ [node]))"

text \<open>
  Phase 3, the connections. A parent \<open>p\<close> is only used as a property key of
  \<open>connections\<close>, so the model keeps its string: \<open>idByStep[k] || prev\<close> is the recorded id,
  \<open>prev\<close> when nothing is found, and the inherited value for a name of \<open>Object.prototype\<close>.
\<close>

definition resolve :: "(string \<times> string) list \<Rightarrow> string \<Rightarrow> string \<Rightarrow> string" where
  "resolve idByStep prev k =
     (if k = ''trigger'' then triggerId
      else case lookup_dict idByStep k of
             Own v \<Rightarrow> if truthy (JStr v) then v else prev
           | Inherited n \<Rightarrow> inherited_toString n
           | Missing \<Rightarrow> prev)"

definition parents :: "(string \<times> string) list \<Rightarrow> string \<Rightarrow> Step \<Rightarrow> string list" where
  "parents idByStep prev s =
     (case dependsOn s of
        Some ks \<Rightarrow> if length ks \<noteq> 0 then map (resolve idByStep prev) ks else [prev]
      | None \<Rightarrow> [prev])"

definition edge :: "string \<Rightarrow> jsval" where
  "edge current = JObj [(''node'', JStr current), (''type'', JStr ''main''), (''index'', JNum 0)]"

text \<open>\<open>entry.main[0].push(e)\<close>; a TypeError when \<open>entry.main[0]\<close> is not there.\<close>

definition push_main :: "jsval \<Rightarrow> jsval \<Rightarrow> js_error + jsval" where
  "push_main entry e =
     (case entry of
        JObj ps \<Rightarrow>
          (case map_of ps ''main'' of
             Some (JArr (JArr es # rest)) \<Rightarrow>
               Inr (JObj (AList.update ''main'' (JArr (JArr (es @ [e]) # rest)) ps))
           | _ \<Rightarrow> Inl TypeError)
      | _ \<Rightarrow> Inl TypeError)"

text \<open>
  The body of \<open>for (const p of parents)\<close>. An inherited \<open>connections[p]\<close> is truthy and
  has no \<open>main\<close>, so the push throws.
\<close>

definition add_edge ::
  "string \<Rightarrow> (string \<times> jsval) list \<Rightarrow> string \<Rightarrow> js_error + (string \<times> jsval) list" where
  "add_edge current connections p =
     (case lookup_dict connections p of
        Inherited n \<Rightarrow> Inl TypeError
      | found \<Rightarrow>
          (let fresh = JObj [(''main'', JArr [JArr []])];
               entry = (case found of Own en \<Rightarrow> if truthy en then en else fresh | _ \<Rightarrow> fresh)
           in case push_main entry (edge current) of
                Inl e \<Rightarrow> Inl e
              | Inr entry' \<Rightarrow> Inr (AList.update p entry' connections)))"

fun add_edges ::
  "string \<Rightarrow> string list \<Rightarrow> (string \<times> jsval) list \<Rightarrow> js_error + (string \<times> jsval) list" where
  "add_edges current [] connections = Inr connections"
| "add_edges current (p # ps) connections =
     (case add_edge current connections p of
        Inl e \<Rightarrow> Inl e
      | Inr connections' \<Rightarrow> add_edges current ps connections')"

text \<open>
  The loop \<open>for (let i = 0; i < args.steps.length; i++)\<close>, on the steps from index \<open>i\<close> on;
  its state is \<open>prev\<close> and \<open>connections\<close>.
\<close>

fun connect ::
  "(string \<times> string) list \<Rightarrow> Step list \<Rightarrow> nat \<Rightarrow> string \<Rightarrow> (string \<times> jsval) list
   \<Rightarrow> js_error + (string \<times> (string \<times> jsval) list)" where
  "connect idByStep [] i prev connections = Inr (prev, connections)"
| "connect idByStep (s # ss) i prev connections =
     (let current = String_of_number (i + 2)
      in case add_edges current (parents idByStep prev s) connections of
           Inl e \<Rightarrow> Inl e
         | Inr connections' \<Rightarrow> connect idByStep ss (i + 1) current connections')"

definition renderWorkflow :: "RenderArgs \<Rightarrow> js_error + jsval" where
  "renderWorkflow args =
     (case build_steps (steps args) 1 [] [trigger_node args] of
        Inl e \<Rightarrow> Inl e
      | Inr (order', idByStep, nodes) \<Rightarrow>
          (case connect idByStep (steps args) 0 triggerId [] of
             Inl e \<Rightarrow> Inl e
           | Inr (prev, connections) \<Rightarrow>
               Inr (JObj [(''nodes'', JArr nodes), (''connections'', JObj connections)])))"

subsection \<open>Reading a rendered graph\<close>

text \<open>
  What a consumer reads off the result: the node list \<open>g.nodes\<close>, the edge list
  \<open>g.connections[p].main[0]\<close> of a source \<open>p\<close>, and the keys of an object.
\<close>

definition graph_nodes :: "jsval \<Rightarrow> jsval list" where
  "graph_nodes g = (case get_prop g ''nodes'' of JArr ns \<Rightarrow> ns | _ \<Rightarrow> [])"

definition main_edges :: "jsval \<Rightarrow> jsval list" where
  "main_edges entry = (case get_prop entry ''main'' of JArr (JArr es # rest) \<Rightarrow> es | _ \<Rightarrow> [])"

definition out_edges :: "jsval \<Rightarrow> string \<Rightarrow> jsval list" where
  "out_edges g p = main_edges (get_prop (get_prop g ''connections'') p)"

definition field_names :: "jsval \<Rightarrow> string list" where
  "field_names v = (case v of JObj ps \<Rightarrow> map fst ps | _ \<Rightarrow> [])"

section \<open>Facts about the building blocks\<close>

subsection \<open>Decimal strings\<close>

lemma digit_char_in: "d < 10 \<Longrightarrow> digit_char d \<in> set ''0123456789''"
  unfolding digit_char_def by (rule nth_mem) simp

lemma digit_char_inj: "a < 10 \<Longrightarrow> b < 10 \<Longrightarrow> digit_char a = digit_char b \<Longrightarrow> a = b"
proof -
  assume a: "a < 10" and b: "b < 10" and e: "digit_char a = digit_char b"
  have d: "distinct ''0123456789''" by simp
  have l: "length ''0123456789'' = 10" by simp
  from d a b e l show "a = b"
    unfolding digit_char_def by (metis nth_eq_iff_index_eq)
qed

lemma String_of_number_digits: "set (String_of_number n) \<subseteq> set ''0123456789''"
proof (induction n rule: String_of_number.induct)
  case (1 n)
  show ?case
  proof (cases "n < 10")
    case True
    then show ?thesis
      using digit_char_in [of n] by (subst String_of_number.simps) simp
  next
    case False
    have "n mod 10 < 10" by simp
    then have "digit_char (n mod 10) \<in> set ''0123456789''" by (rule digit_char_in)
    with False 1 show ?thesis
      by (subst String_of_number.simps) simp
  qed
qed

lemma String_of_number_nonempty: "String_of_number n \<noteq> []"
  by (subst String_of_number.simps) simp

lemma String_of_number_inj: "String_of_number m = String_of_number n \<Longrightarrow> m = n"
proof (induction m arbitrary: n rule: String_of_number.induct)
  case (1 m)
  show ?case
  proof (cases "m < 10")
    case m: True
    show ?thesis
    proof (cases "n < 10")
      case True
      with m 1(2) show ?thesis
        by (simp add: String_of_number.simps [of m] String_of_number.simps [of n] digit_char_inj)
    next
      case False
      with m 1(2) have "[digit_char m] = String_of_number (n div 10) @ [digit_char (n mod 10)]"
        by (simp add: String_of_number.simps [of m] String_of_number.simps [of n])
      then have "String_of_number (n div 10) = []" by simp
      then show ?thesis by (simp add: String_of_number_nonempty)
    qed
  next
    case m: False
    show ?thesis
    proof (cases "n < 10")
      case True
      with m 1(2) have "String_of_number (m div 10) @ [digit_char (m mod 10)] = [digit_char n]"
        by (simp add: String_of_number.simps [of m] String_of_number.simps [of n])
      then have "String_of_number (m div 10) = []" by simp
      then show ?thesis by (simp add: String_of_number_nonempty)
    next
      case False
      with m 1(2) have e: "String_of_number (m div 10) @ [digit_char (m mod 10)]
            = String_of_number (n div 10) @ [digit_char (n mod 10)]"
        by (simp add: String_of_number.simps [of m] String_of_number.simps [of n])
      then have e1: "String_of_number (m div 10) = String_of_number (n div 10)"
        and e2: "digit_char (m mod 10) = digit_char (n mod 10)" by simp_all
      from 1(1) [OF m e1] have d: "m div 10 = n div 10" .
      have "m mod 10 = n mod 10" using e2 by (intro digit_char_inj) simp_all
      with d show ?thesis by (metis div_mult_mod_eq)
    qed
  qed
qed

lemma String_of_number_examples:
  "String_of_number 0 = ''0''" "String_of_number 7 = ''7''" "String_of_number 10 = ''10''"
  "String_of_number 42 = ''42''" "String_of_number 2025 = ''2025''"
  by code_simp+

lemma proto_key_has_letter:
  "k \<in> set Object_prototype_keys \<Longrightarrow> \<not> set k \<subseteq> set ''0123456789''"
  by (auto simp: Object_prototype_keys_def)

lemma String_of_number_not_proto: "String_of_number n \<notin> set Object_prototype_keys"
  using proto_key_has_letter String_of_number_digits by blast

lemma proto_key_no_space: "k \<in> set Object_prototype_keys \<Longrightarrow> CHR '' '' \<notin> set k"
  by (auto simp: Object_prototype_keys_def)

lemma inherited_toString_not_proto: "inherited_toString k \<notin> set Object_prototype_keys"
proof
  assume "inherited_toString k \<in> set Object_prototype_keys"
  then have "CHR '' '' \<notin> set (inherited_toString k)" by (rule proto_key_no_space)
  then show False by (simp add: inherited_toString_def split: if_splits)
qed

lemma triggerId_eq: "triggerId = String_of_number 1"
  by (simp add: triggerId_def String_of_number.simps digit_char_def)

subsection \<open>The step loop\<close>

lemma NODE_SPECS_proto: "k \<in> set Object_prototype_keys \<Longrightarrow> map_of NODE_SPECS k = None"
  by (auto simp: Object_prototype_keys_def NODE_SPECS_def)

lemma lookup_NODE_SPECS_Inherited:
  "(\<exists>n. lookup_dict NODE_SPECS k = Inherited n) \<longleftrightarrow> k \<in> set Object_prototype_keys"
  by (auto simp: lookup_dict_def NODE_SPECS_proto split: option.splits if_splits)

lemma step_node_Inl: "step_node k s = Inl e \<longleftrightarrow> Step.type s \<in> set Object_prototype_keys"
  using lookup_NODE_SPECS_Inherited [of "Step.type s"]
  by (cases "lookup_dict NODE_SPECS (Step.type s)"; cases e) (auto simp: step_node_def step_node_in_def Let_def)

lemma build_steps_Inr:
  "build_steps ss k ids ns = Inr (k', ids', ns') \<Longrightarrow>
     k' = k + length ss \<and> length ns' = length ns + length ss \<and> take (length ns) ns' = ns \<and>
     (\<forall>i<length ss. step_node (k + 1 + i) (ss ! i) = Inr (ns' ! (length ns + i)))"
proof (induction ss arbitrary: k ids ns)
  case Nil
  then show ?case by simp
next
  case (Cons s ss)
  from Cons.prems obtain node where
    n: "step_node (k + 1) s = Inr node" and
    r: "build_steps ss (k + 1) (assign_dict ids (step_key (k + 1) s) (String_of_number (k + 1)))
          (ns @ [node]) = Inr (k', ids', ns')"
    by (auto simp: Let_def split: sum.splits)
  from Cons.IH [OF r] have
    k': "k' = k + 1 + length ss" and
    len: "length ns' = length (ns @ [node]) + length ss" and
    tk: "take (length (ns @ [node])) ns' = ns @ [node]" and
    rest: "\<forall>i<length ss. step_node (k + 1 + 1 + i) (ss ! i) = Inr (ns' ! (length (ns @ [node]) + i))"
    by auto
  from tk have "take (length ns) (take (length (ns @ [node])) ns') = take (length ns) (ns @ [node])"
    by simp
  then have tk1: "take (length ns) ns' = ns" by (simp add: min_def)
  from tk have "take (length (ns @ [node])) ns' ! length ns = (ns @ [node]) ! length ns"
    by simp
  then have hd: "ns' ! length ns = node" by simp
  have "\<forall>i<length (s # ss). step_node (k + 1 + i) ((s # ss) ! i) = Inr (ns' ! (length ns + i))"
  proof (intro allI impI)
    fix i assume "i < length (s # ss)"
    then show "step_node (k + 1 + i) ((s # ss) ! i) = Inr (ns' ! (length ns + i))"
      using n hd rest by (cases i) auto
  qed
  with k' len tk1 show ?case by simp
qed

lemma build_steps_Inl:
  "build_steps ss k ids ns = Inl e \<longleftrightarrow> (\<exists>s\<in>set ss. Step.type s \<in> set Object_prototype_keys)"
proof (induction ss arbitrary: k ids ns)
  case Nil
  then show ?case by simp
next
  case (Cons s ss)
  show ?case
  proof (cases "step_node (k + 1) s")
    case (Inl e')
    then show ?thesis using step_node_Inl [of "k + 1" s e'] by (cases e; cases e') (simp add: Let_def)
  next
    case (Inr node)
    then have "Step.type s \<notin> set Object_prototype_keys"
      using step_node_Inl [of "k + 1" s TypeError] by simp
    with Inr Cons.IH show ?thesis by (simp add: Let_def)
  qed
qed

lemma update_values: "snd ` set (AList.update k v al) \<subseteq> insert v (snd ` set al)"
  by (induction al) auto

lemma update_set_cases: "(q, x) \<in> set (AList.update k v al) \<Longrightarrow> (q, x) = (k, v) \<or> (q, x) \<in> set al"
  by (induction al) (auto split: if_splits)

lemma build_steps_ids:
  "build_steps ss k ids ns = Inr (k', ids', ns') \<Longrightarrow>
   \<forall>v\<in>snd ` set ids. \<exists>m. v = String_of_number m \<Longrightarrow>
   \<forall>v\<in>snd ` set ids'. \<exists>m. v = String_of_number m"
proof (induction ss arbitrary: k ids ns)
  case Nil
  then show ?case by simp
next
  case (Cons s ss)
  let ?ids = "assign_dict ids (step_key (k + 1) s) (String_of_number (k + 1))"
  from Cons.prems(1) obtain node where
    r: "build_steps ss (k + 1) ?ids (ns @ [node]) = Inr (k', ids', ns')"
    by (auto simp: Let_def split: sum.splits)
  have "\<forall>v\<in>snd ` set ?ids. \<exists>m. v = String_of_number m"
  proof
    fix v assume "v \<in> snd ` set ?ids"
    then have "v \<in> insert (String_of_number (k + 1)) (snd ` set ids)"
      using update_values [of "step_key (k + 1) s" "String_of_number (k + 1)" ids]
      by (auto simp: assign_dict_def split: if_splits)
    with Cons.prems(2) show "\<exists>m. v = String_of_number m" by blast
  qed
  from Cons.IH [OF r this] show ?case .
qed

lemma resolve_safe:
  assumes "\<forall>v\<in>snd ` set ids. \<exists>m. v = String_of_number m"
    and "prev \<notin> set Object_prototype_keys"
  shows "resolve ids prev k \<notin> set Object_prototype_keys"
proof (cases "k = ''trigger''")
  case True
  then show ?thesis by (simp add: resolve_def triggerId_eq String_of_number_not_proto)
next
  case False
  show ?thesis
  proof (cases "lookup_dict ids k")
    case (Own v)
    then have "map_of ids k = Some v"
      by (auto simp: lookup_dict_def split: option.splits if_splits)
    then have "(k, v) \<in> set ids" by (rule map_of_SomeD)
    then have "v \<in> snd ` set ids" by force
    with assms(1) obtain m where "v = String_of_number m" by blast
    with Own False assms(2) show ?thesis
      by (simp add: resolve_def String_of_number_not_proto)
  next
    case (Inherited n)
    with False show ?thesis by (simp add: resolve_def inherited_toString_not_proto)
  next
    case Missing
    with False assms(2) show ?thesis by (simp add: resolve_def)
  qed
qed

lemma parents_safe:
  assumes "\<forall>v\<in>snd ` set ids. \<exists>m. v = String_of_number m"
    and "prev \<notin> set Object_prototype_keys"
  shows "\<forall>p\<in>set (parents ids prev s). p \<notin> set Object_prototype_keys"
  using assms resolve_safe [OF assms]
  by (auto simp: parents_def split: option.splits)

lemma parents_nonempty: "parents ids prev s \<noteq> []"
  by (auto simp: parents_def split: option.splits)

subsection \<open>The connection loop\<close>

text \<open>Every entry of \<open>connections\<close> has the form \<open>{ main: [[...]] }\<close>.\<close>

lemma main_edges_entry [simp]: "main_edges (JObj [(''main'', JArr [JArr es])]) = es"
  by (simp add: main_edges_def get_prop_def)

lemma add_edge_Inr:
  assumes wf: "\<forall>(k, v)\<in>set c. \<exists>es. v = JObj [(''main'', JArr [JArr es])]"
    and p: "p \<notin> set Object_prototype_keys"
  shows "add_edge cur c p =
           Inr (AList.update p
                  (JObj [(''main'', JArr [JArr (main_edges (get_prop (JObj c) p) @ [edge cur])])]) c)"
proof (cases "map_of c p")
  case None
  with p show ?thesis
    by (simp add: add_edge_def lookup_dict_def push_main_def get_prop_def main_edges_def)
next
  case (Some v)
  then have "(p, v) \<in> set c" by (rule map_of_SomeD)
  with wf obtain es where "v = JObj [(''main'', JArr [JArr es])]" by blast
  with Some show ?thesis
    by (simp add: add_edge_def lookup_dict_def push_main_def get_prop_def main_edges_def)
qed

lemma add_edge_wf:
  assumes wf: "\<forall>(k, v)\<in>set c. \<exists>es. v = JObj [(''main'', JArr [JArr es])]"
    and r: "add_edge cur c p = Inr c'" and p: "p \<notin> set Object_prototype_keys"
  shows "\<forall>(k, v)\<in>set c'. \<exists>es. v = JObj [(''main'', JArr [JArr es])]"
proof -
  from add_edge_Inr [OF wf p, of cur] r
  have c': "c' = AList.update p
                  (JObj [(''main'', JArr [JArr (main_edges (get_prop (JObj c) p) @ [edge cur])])]) c"
    by simp
  show ?thesis
  proof (clarify)
    fix k v assume "(k, v) \<in> set c'"
    with c' update_set_cases have
      "(k, v) = (p, JObj [(''main'', JArr [JArr (main_edges (get_prop (JObj c) p) @ [edge cur])])])
       \<or> (k, v) \<in> set c" by metis
    with wf show "\<exists>es. v = JObj [(''main'', JArr [JArr es])]" by auto
  qed
qed

lemma add_edge_edges:
  assumes wf: "\<forall>(k, v)\<in>set c. \<exists>es. v = JObj [(''main'', JArr [JArr es])]"
    and r: "add_edge cur c p = Inr c'" and p: "p \<notin> set Object_prototype_keys"
  shows "main_edges (get_prop (JObj c') q) =
           (if q = p then main_edges (get_prop (JObj c) p) @ [edge cur]
            else main_edges (get_prop (JObj c) q))"
proof -
  from add_edge_Inr [OF wf p, of cur] r
  have c': "c' = AList.update p
                  (JObj [(''main'', JArr [JArr (main_edges (get_prop (JObj c) p) @ [edge cur])])]) c"
    by simp
  show ?thesis
    by (simp add: c' get_prop_def AList.update_conv')
qed

lemma add_edges_Inr:
  assumes "\<forall>(k, v)\<in>set c. \<exists>es. v = JObj [(''main'', JArr [JArr es])]"
    and "\<forall>p\<in>set ps. p \<notin> set Object_prototype_keys"
  shows "\<exists>c'. add_edges cur ps c = Inr c' \<and>
           (\<forall>(k, v)\<in>set c'. \<exists>es. v = JObj [(''main'', JArr [JArr es])]) \<and>
           (\<forall>q. main_edges (get_prop (JObj c') q) =
                  main_edges (get_prop (JObj c) q) @ map (\<lambda>p. edge cur) (filter (\<lambda>p. p = q) ps))"
  using assms
proof (induction ps arbitrary: c)
  case Nil
  then show ?case by simp
next
  case (Cons p ps)
  from Cons.prems(2) have p: "p \<notin> set Object_prototype_keys" by simp
  from add_edge_Inr [OF Cons.prems(1) p, of cur] obtain c1 where
    c1: "add_edge cur c p = Inr c1" by blast
  note wf1 = add_edge_wf [OF Cons.prems(1) c1 p]
  note ed1 = add_edge_edges [OF Cons.prems(1) c1 p]
  from Cons.prems(2) have "\<forall>p\<in>set ps. p \<notin> set Object_prototype_keys" by simp
  from Cons.IH [OF wf1 this] obtain c' where
    r: "add_edges cur ps c1 = Inr c'" and
    wf': "\<forall>(k, v)\<in>set c'. \<exists>es. v = JObj [(''main'', JArr [JArr es])]" and
    ed': "\<forall>q. main_edges (get_prop (JObj c') q) =
                  main_edges (get_prop (JObj c1) q) @ map (\<lambda>p. edge cur) (filter (\<lambda>p. p = q) ps)"
    by blast
  have "add_edges cur (p # ps) c = Inr c'" using c1 r by simp
  moreover have "\<forall>q. main_edges (get_prop (JObj c') q) =
                  main_edges (get_prop (JObj c) q) @ map (\<lambda>p. edge cur) (filter (\<lambda>p. p = q) (p # ps))"
    using ed' ed1 by simp
  ultimately show ?case using wf' by blast
qed

lemma connect_prev:
  "connect ids ss i prev c = Inr (prev', c') \<Longrightarrow>
     prev' = (if ss = [] then prev else String_of_number (i + length ss + 1))"
proof (induction ss arbitrary: i prev c)
  case Nil
  then show ?case by simp
next
  case (Cons s ss)
  from Cons.prems obtain c1 where
    r: "connect ids ss (i + 1) (String_of_number (i + 2)) c1 = Inr (prev', c')"
    by (auto simp: Let_def split: sum.splits)
  from Cons.IH [OF r] show ?case by (cases ss) simp_all
qed

lemma connect_Inr:
  assumes "\<forall>v\<in>snd ` set ids. \<exists>m. v = String_of_number m"
    and "\<forall>(k, v)\<in>set c. \<exists>es. v = JObj [(''main'', JArr [JArr es])]"
  shows "\<exists>prev' c'. connect ids ss i (String_of_number (i + 1)) c = Inr (prev', c') \<and>
           (\<forall>(k, v)\<in>set c'. \<exists>es. v = JObj [(''main'', JArr [JArr es])]) \<and>
           (\<forall>q. set (main_edges (get_prop (JObj c') q)) =
                  set (main_edges (get_prop (JObj c) q)) \<union>
                  {edge (String_of_number (i + j + 2)) | j.
                     j < length ss \<and> q \<in> set (parents ids (String_of_number (i + j + 1)) (ss ! j))})"
  using assms(2)
proof (induction ss arbitrary: i c)
  case Nil
  then show ?case by simp
next
  case (Cons s ss)
  let ?ps = "parents ids (String_of_number (i + 1)) s"
  let ?cur = "String_of_number (i + 2)"
  have safe: "\<forall>p\<in>set ?ps. p \<notin> set Object_prototype_keys"
    by (rule parents_safe [OF assms(1) String_of_number_not_proto])
  from add_edges_Inr [OF Cons.prems safe, of ?cur] obtain c1 where
    c1: "add_edges ?cur ?ps c = Inr c1" and
    wf1: "\<forall>(k, v)\<in>set c1. \<exists>es. v = JObj [(''main'', JArr [JArr es])]" and
    ed1: "\<forall>q. main_edges (get_prop (JObj c1) q) =
            main_edges (get_prop (JObj c) q) @ map (\<lambda>p. edge ?cur) (filter (\<lambda>p. p = q) ?ps)"
    by blast
  from Cons.IH [OF wf1, of "i + 1"] obtain prev' c' where
    r: "connect ids ss (i + 1) (String_of_number (i + 1 + 1)) c1 = Inr (prev', c')" and
    wf': "\<forall>(k, v)\<in>set c'. \<exists>es. v = JObj [(''main'', JArr [JArr es])]" and
    ed': "\<forall>q. set (main_edges (get_prop (JObj c') q)) =
                  set (main_edges (get_prop (JObj c1) q)) \<union>
                  {edge (String_of_number (i + 1 + j + 2)) | j.
                     j < length ss \<and> q \<in> set (parents ids (String_of_number (i + 1 + j + 1)) (ss ! j))}"
    by blast
  have run: "connect ids (s # ss) i (String_of_number (i + 1)) c = Inr (prev', c')"
    using c1 r by (simp add: Let_def)
  have "\<forall>q. set (main_edges (get_prop (JObj c') q)) =
                  set (main_edges (get_prop (JObj c) q)) \<union>
                  {edge (String_of_number (i + j + 2)) | j.
                     j < length (s # ss) \<and>
                     q \<in> set (parents ids (String_of_number (i + j + 1)) ((s # ss) ! j))}"
  proof
    fix q
    have split: "{edge (String_of_number (i + j + 2)) | j.
                     j < length (s # ss) \<and>
                     q \<in> set (parents ids (String_of_number (i + j + 1)) ((s # ss) ! j))}
          = (if q \<in> set ?ps then {edge ?cur} else {}) \<union>
            {edge (String_of_number (i + 1 + j + 2)) | j.
                     j < length ss \<and> q \<in> set (parents ids (String_of_number (i + 1 + j + 1)) (ss ! j))}"
      (is "?L = ?A \<union> ?B")
    proof (intro set_eqI iffI)
      fix e assume "e \<in> ?L"
      then obtain j where j: "j < length (s # ss)" "e = edge (String_of_number (i + j + 2))"
        "q \<in> set (parents ids (String_of_number (i + j + 1)) ((s # ss) ! j))" by blast
      show "e \<in> ?A \<union> ?B"
      proof (cases j)
        case 0
        with j show ?thesis by simp
      next
        case (Suc j')
        with j have "j' < length ss" "e = edge (String_of_number (i + 1 + j' + 2))"
          "q \<in> set (parents ids (String_of_number (i + 1 + j' + 1)) (ss ! j'))" by simp_all
        then show ?thesis by blast
      qed
    next
      fix e assume "e \<in> ?A \<union> ?B"
      then consider "e \<in> ?A" | "e \<in> ?B" by blast
      then show "e \<in> ?L"
      proof cases
        case 1
        then have "q \<in> set ?ps" "e = edge ?cur" by (simp_all split: if_splits)
        then have "0 < length (s # ss) \<and> e = edge (String_of_number (i + 0 + 2)) \<and>
          q \<in> set (parents ids (String_of_number (i + 0 + 1)) ((s # ss) ! 0))" by simp
        then show ?thesis by blast
      next
        case 2
        then obtain j where "j < length ss" "e = edge (String_of_number (i + 1 + j + 2))"
          "q \<in> set (parents ids (String_of_number (i + 1 + j + 1)) (ss ! j))" by blast
        then have "Suc j < length (s # ss) \<and> e = edge (String_of_number (i + Suc j + 2)) \<and>
          q \<in> set (parents ids (String_of_number (i + Suc j + 1)) ((s # ss) ! Suc j))" by simp
        then show ?thesis by blast
      qed
    qed
    have "set (main_edges (get_prop (JObj c1) q)) =
            set (main_edges (get_prop (JObj c) q)) \<union> (if q \<in> set ?ps then {edge ?cur} else {})"
      using ed1 by (auto simp: filter_empty_conv)
    with ed' split show "set (main_edges (get_prop (JObj c') q)) =
                  set (main_edges (get_prop (JObj c) q)) \<union> ?L"
      by (simp add: Un_assoc)
  qed
  with run wf' show ?case by blast
qed

subsection \<open>The whole renderer\<close>

lemma renderWorkflow_Inr:
  assumes "renderWorkflow a = Inr g"
  shows "\<exists>k ids ns prev c.
           build_steps (steps a) 1 [] [trigger_node a] = Inr (k, ids, ns) \<and>
           connect ids (steps a) 0 triggerId [] = Inr (prev, c) \<and>
           g = JObj [(''nodes'', JArr ns), (''connections'', JObj c)]"
  using assms by (auto simp: renderWorkflow_def split: sum.splits prod.splits)

lemma build_steps_connect:
  assumes "build_steps (steps a) 1 [] [trigger_node a] = Inr (k, ids, ns)"
  shows "\<exists>prev c. connect ids (steps a) 0 triggerId [] = Inr (prev, c) \<and>
           renderWorkflow a = Inr (JObj [(''nodes'', JArr ns), (''connections'', JObj c)])"
proof -
  have "\<forall>v\<in>snd ` set ids. \<exists>m. v = String_of_number m"
    by (rule build_steps_ids [OF assms]) simp
  from connect_Inr [OF this, of "[]" "steps a" 0] obtain prev c where
    "connect ids (steps a) 0 triggerId [] = Inr (prev, c)"
    by (auto simp: triggerId_eq)
  with assms show ?thesis by (simp add: renderWorkflow_def)
qed

lemma renderWorkflow_Inl:
  "renderWorkflow a = Inl e \<longleftrightarrow> (\<exists>s\<in>set (steps a). Step.type s \<in> set Object_prototype_keys)"
proof (cases "build_steps (steps a) 1 [] [trigger_node a]")
  case (Inl e')
  then have "renderWorkflow a = Inl e" by (cases e; cases e') (simp add: renderWorkflow_def)
  with Inl build_steps_Inl [of "steps a" 1 "[]" "[trigger_node a]" e'] show ?thesis by simp
next
  case (Inr r)
  obtain k ids ns where "r = (k, ids, ns)" by (cases r)
  with Inr build_steps_connect [of a k ids ns] build_steps_Inl [of "steps a" 1 "[]" "[trigger_node a]" e]
  show ?thesis by auto
qed

lemma renderWorkflow_nodes:
  assumes "renderWorkflow a = Inr g"
  shows "length (graph_nodes g) = length (steps a) + 1"
    and "graph_nodes g ! 0 = trigger_node a"
    and "\<And>i. i < length (steps a) \<Longrightarrow> step_node (i + 2) (steps a ! i) = Inr (graph_nodes g ! (i + 1))"
proof -
  from renderWorkflow_Inr [OF assms] obtain k ids ns c where
    b: "build_steps (steps a) 1 [] [trigger_node a] = Inr (k, ids, ns)" and
    g: "g = JObj [(''nodes'', JArr ns), (''connections'', JObj c)]" by blast
  have gn: "graph_nodes g = ns" by (simp add: g graph_nodes_def get_prop_def)
  from build_steps_Inr [OF b] have
    len: "length ns = length [trigger_node a] + length (steps a)" and
    tk: "take (length [trigger_node a]) ns = [trigger_node a]" and
    st: "\<forall>i<length (steps a). step_node (1 + 1 + i) (steps a ! i) = Inr (ns ! (length [trigger_node a] + i))"
    by blast+
  from len show "length (graph_nodes g) = length (steps a) + 1" by (simp add: gn)
  from tk len show "graph_nodes g ! 0 = trigger_node a"
    by (cases ns) (simp_all add: gn)
  show "step_node (i + 2) (steps a ! i) = Inr (graph_nodes g ! (i + 1))" if "i < length (steps a)" for i
    using st that by (simp add: gn add.commute)
qed

lemma step_node_Inr:
  assumes "step_node k s = Inr n"
  shows "n = JObj [(''id'', JStr (String_of_number k)),
                   (''name'', JStr (Step.type s)),
                   (''type'', JStr (case map_of NODE_SPECS (Step.type s) of
                                      Some sp \<Rightarrow> NodeSpec.type sp | None \<Rightarrow> Step.type s)),
                   (''typeVersion'', JNum 1),
                   (''parameters'',
                    JObj (spread (spread [] (JObj (default_parameters (Step.type s))))
                            (JObj (parameters s)))),
                   (''position'', nextPos (k - 1))]"
  using assms
  by (auto simp: step_node_def step_node_in_def lookup_dict_def default_parameters_def Let_def
        spread_def or_empty_def get_prop_def
      split: option.splits if_splits)

subsection \<open>Object spread\<close>

lemma map_of_rev_distinct: "distinct (map fst ps) \<Longrightarrow> map_of (rev ps) = map_of ps"
proof (induction ps)
  case Nil
  then show ?case by simp
next
  case (Cons p ps)
  obtain k v where p: "p = (k, v)" by (cases p)
  from Cons.prems p have "map_of ps k = None" by (simp add: map_of_eq_None_iff)
  with Cons p show ?case
    by (auto simp: map_add_def fun_eq_iff split: option.splits)
qed

lemma map_of_spread:
  "map_of (spread t v) = map_of t ++ map_of (rev (own_props v))"
  unfolding spread_def
proof (induction "own_props v" arbitrary: t v)
  case Nil
  then show ?case by simp
next
  case (Cons p ps)
  obtain k x where p: "p = (k, x)" by (cases p)
  have ps: "ps = own_props (JObj ps)" by simp
  from Cons(1) [OF ps, of "AList.update k x t"] Cons(2) [symmetric] p
  show ?case
    by (simp add: AList.update_conv' map_add_def fun_eq_iff split: option.splits)
qed

lemma default_parameters_distinct: "distinct (map fst (default_parameters t))"
  by (auto simp: default_parameters_def NODE_SPECS_def Manual_Trigger_spec_def Cron_spec_def
        Webhook_spec_def HTTP_Request_spec_def or_empty_def get_prop_def
      split: option.splits if_splits)

lemma connect_append:
  "connect ids (xs @ ys) i prev c =
     (case connect ids xs i prev c of
        Inl e \<Rightarrow> Inl e
      | Inr (p, c1) \<Rightarrow> connect ids ys (i + length xs) p c1)"
  by (induction xs arbitrary: i prev c) (simp_all add: Let_def split: sum.splits)

lemma renderWorkflow_edges:
  assumes "renderWorkflow a = Inr g"
  obtains k ids ns where
    "build_steps (steps a) 1 [] [trigger_node a] = Inr (k, ids, ns)"
    "\<forall>v\<in>snd ` set ids. \<exists>m. v = String_of_number m"
    "\<And>q. set (out_edges g q) =
            {edge (String_of_number (j + 2)) | j.
               j < length (steps a) \<and>
               q \<in> set (parents ids (String_of_number (j + 1)) (steps a ! j))}"
proof -
  from renderWorkflow_Inr [OF assms] obtain k ids ns prev c where
    b: "build_steps (steps a) 1 [] [trigger_node a] = Inr (k, ids, ns)" and
    con: "connect ids (steps a) 0 triggerId [] = Inr (prev, c)" and
    g: "g = JObj [(''nodes'', JArr ns), (''connections'', JObj c)]" by blast
  have ids: "\<forall>v\<in>snd ` set ids. \<exists>m. v = String_of_number m"
    by (rule build_steps_ids [OF b]) simp
  have oe: "out_edges g q = main_edges (get_prop (JObj c) q)" for q
    by (simp add: g out_edges_def get_prop_def)
  from connect_Inr [OF ids, of "[]" "steps a" 0] con
  have "\<forall>q. set (main_edges (get_prop (JObj c) q)) =
              set (main_edges (get_prop (JObj []) q)) \<union>
                  {edge (String_of_number (0 + j + 2)) | j.
                     j < length (steps a) \<and>
                     q \<in> set (parents ids (String_of_number (0 + j + 1)) (steps a ! j))}"
    by (auto simp: triggerId_eq)
  then have "set (out_edges g q) =
                  {edge (String_of_number (j + 2)) | j.
                     j < length (steps a) \<and>
                     q \<in> set (parents ids (String_of_number (j + 1)) (steps a ! j))}" for q
    by (simp add: oe main_edges_def get_prop_def)
  with b ids show ?thesis by (rule that)
qed

subsection \<open>Plans without \<open>dependsOn\<close>\<close>

lemma update_fresh: "k \<notin> fst ` set al \<Longrightarrow> AList.update k v al = al @ [(k, v)]"
  by (induction al) auto

lemma add_edge_fresh:
  assumes "p \<notin> fst ` set c" and "p \<notin> set Object_prototype_keys"
  shows "add_edge cur c p = Inr (c @ [(p, JObj [(''main'', JArr [JArr [edge cur]])])])"
proof -
  from assms(1) have "map_of c p = None" by (simp add: map_of_eq_None_iff)
  with assms show ?thesis
    by (simp add: add_edge_def lookup_dict_def push_main_def update_fresh)
qed

lemma connect_chain:
  assumes "\<forall>s\<in>set ss. dependsOn s = None \<or> dependsOn s = Some []"
    and "c = map (\<lambda>j. (String_of_number (j + 1),
                        JObj [(''main'', JArr [JArr [edge (String_of_number (j + 2))]])])) [0..<i]"
  shows "connect ids ss i (String_of_number (i + 1)) c =
           Inr (String_of_number (i + length ss + 1),
                map (\<lambda>j. (String_of_number (j + 1),
                           JObj [(''main'', JArr [JArr [edge (String_of_number (j + 2))]])]))
                  [0..<i + length ss])"
  using assms
proof (induction ss arbitrary: i c)
  case Nil
  then show ?case by simp
next
  case (Cons s ss)
  let ?p = "String_of_number (i + 1)"
  let ?c1 = "c @ [(?p, JObj [(''main'', JArr [JArr [edge (String_of_number (i + 2))]])])]"
  from Cons.prems(1) have ps: "parents ids ?p s = [?p]" by (auto simp: parents_def)
  have "?p \<notin> fst ` set c"
  proof
    assume "?p \<in> fst ` set c"
    with Cons.prems(2) obtain j where "j < i" "String_of_number (j + 1) = ?p" by auto
    then show False using String_of_number_inj [of "j + 1" "i + 1"] by simp
  qed
  from add_edge_fresh [OF this String_of_number_not_proto, of "String_of_number (i + 2)"]
  have e: "add_edges (String_of_number (i + 2)) (parents ids ?p s) c = Inr ?c1"
    unfolding ps by simp
  have c1: "?c1 = map (\<lambda>j. (String_of_number (j + 1),
                        JObj [(''main'', JArr [JArr [edge (String_of_number (j + 2))]])])) [0..<i + 1]"
    using Cons.prems(2) by simp
  from Cons.prems(1) have "\<forall>s\<in>set ss. dependsOn s = None \<or> dependsOn s = Some []" by simp
  from Cons.IH [OF this c1] e show ?case by (simp add: Let_def)
qed

lemma renderWorkflow_linear_chain:
  assumes "\<forall>s\<in>set (steps a). dependsOn s = None \<or> dependsOn s = Some []"
    and "\<forall>s\<in>set (steps a). Step.type s \<notin> set Object_prototype_keys"
  shows "\<exists>ns. length ns = length (steps a) \<and>
           renderWorkflow a =
             Inr (JObj [(''nodes'', JArr (trigger_node a # ns)),
                        (''connections'',
                         JObj (map (\<lambda>j. (String_of_number (j + 1),
                                          JObj [(''main'',
                                                 JArr [JArr [edge (String_of_number (j + 2))]])]))
                                 [0..<length (steps a)]))])"
proof -
  from assms(2) build_steps_Inl [of "steps a" 1 "[]" "[trigger_node a]" TypeError]
  have "build_steps (steps a) 1 [] [trigger_node a] \<noteq> Inl TypeError" by simp
  then obtain k ids ns where
    b: "build_steps (steps a) 1 [] [trigger_node a] = Inr (k, ids, ns)"
    by (cases "build_steps (steps a) 1 [] [trigger_node a]") (auto intro: js_error.exhaust)
  from build_steps_Inr [OF b] have
    len: "length ns = length [trigger_node a] + length (steps a)" and
    tk: "take (length [trigger_node a]) ns = [trigger_node a]" by blast+
  from tk len obtain ns' where ns: "ns = trigger_node a # ns'" by (cases ns) simp_all
  from connect_chain [OF assms(1), of "[]" 0 ids]
  have "connect ids (steps a) 0 triggerId [] =
          Inr (String_of_number (length (steps a) + 1),
               map (\<lambda>j. (String_of_number (j + 1),
                          JObj [(''main'', JArr [JArr [edge (String_of_number (j + 2))]])]))
                 [0..<length (steps a)])"
    by (simp add: triggerId_eq)
  with b ns len show ?thesis by (intro exI [of _ ns']) (simp add: renderWorkflow_def)
qed

subsection \<open>Resolving types and dependencies\<close>

lemma step_node_known_type:
  assumes "map_of NODE_SPECS (Step.type s) = Some sp"
  shows "\<exists>n. step_node k s = Inr n \<and> get_prop n ''type'' = JStr (NodeSpec.type sp)"
proof -
  from assms NODE_SPECS_proto [of "Step.type s"]
  have "Step.type s \<notin> set Object_prototype_keys" by auto
  with step_node_Inl [of k s TypeError] obtain n where n: "step_node k s = Inr n"
    by (cases "step_node k s") (auto intro: js_error.exhaust)
  from step_node_Inr [OF n] assms have "get_prop n ''type'' = JStr (NodeSpec.type sp)"
    by (simp add: get_prop_def)
  with n show ?thesis by blast
qed

lemma step_node_unknown_type:
  assumes "map_of NODE_SPECS (Step.type s) = None"
    and "Step.type s \<notin> set Object_prototype_keys"
  shows "\<exists>n. step_node k s = Inr n \<and> get_prop n ''type'' = JStr (Step.type s)
           \<and> get_prop n ''id'' = JStr (String_of_number k)
           \<and> default_parameters (Step.type s) = []"
proof -
  from assms(2) step_node_Inl [of k s TypeError] obtain n where n: "step_node k s = Inr n"
    by (cases "step_node k s") (auto intro: js_error.exhaust)
  from step_node_Inr [OF n] assms(1) have "get_prop n ''type'' = JStr (Step.type s)"
    and "get_prop n ''id'' = JStr (String_of_number k)"
    by (simp_all add: get_prop_def)
  with n assms(1) show ?thesis by (simp add: default_parameters_def)
qed

lemma resolve_trigger: "resolve ids prev ''trigger'' = ''1''"
  by (simp add: resolve_def triggerId_def)

lemma resolve_recorded:
  "k \<noteq> ''trigger'' \<Longrightarrow> map_of ids k = Some v \<Longrightarrow> v \<noteq> [] \<Longrightarrow> resolve ids prev k = v"
  by (simp add: resolve_def lookup_dict_def)

lemma resolve_unresolved:
  "k \<noteq> ''trigger'' \<Longrightarrow> map_of ids k = None \<Longrightarrow> k \<notin> set Object_prototype_keys \<Longrightarrow>
     resolve ids prev k = prev"
  by (simp add: resolve_def lookup_dict_def)

lemma resolve_inherited:
  "map_of ids k = None \<Longrightarrow> k \<in> set Object_prototype_keys \<Longrightarrow>
     resolve ids prev k = inherited_toString k"
  by (auto simp: resolve_def lookup_dict_def Object_prototype_keys_def)

lemma depends_on_trigger_edge:
  assumes "renderWorkflow a = Inr g" and "i < length (steps a)"
    and "dependsOn (steps a ! i) = Some ks" and "''trigger'' \<in> set ks"
  shows "edge (String_of_number (i + 2)) \<in> set (out_edges g ''1'')"
proof -
  from assms(1) obtain k ids ns where
    ed: "\<And>q. set (out_edges g q) =
                  {edge (String_of_number (j + 2)) | j.
                     j < length (steps a) \<and>
                     q \<in> set (parents ids (String_of_number (j + 1)) (steps a ! j))}"
    by (rule renderWorkflow_edges) (rule that)
  from assms(4) have "ks \<noteq> []" by auto
  with assms(3,4) have "resolve ids (String_of_number (i + 1)) ''trigger''
      \<in> set (parents ids (String_of_number (i + 1)) (steps a ! i))"
    by (simp add: parents_def)
  then have "''1'' \<in> set (parents ids (String_of_number (i + 1)) (steps a ! i))"
    by (simp add: resolve_trigger)
  with assms(2) have "\<exists>j. edge (String_of_number (i + 2)) = edge (String_of_number (j + 2)) \<and>
                  j < length (steps a) \<and>
                  ''1'' \<in> set (parents ids (String_of_number (j + 1)) (steps a ! j))"
    by (intro exI [of _ i]) simp
  then show ?thesis unfolding ed by (rule CollectI)
qed

lemma every_step_has_incoming_edge:
  assumes "renderWorkflow a = Inr g" and "i < length (steps a)"
  shows "\<exists>p. edge (String_of_number (i + 2)) \<in> set (out_edges g p)"
proof -
  from assms(1) obtain k ids ns where
    ed: "\<And>q. set (out_edges g q) =
                  {edge (String_of_number (j + 2)) | j.
                     j < length (steps a) \<and>
                     q \<in> set (parents ids (String_of_number (j + 1)) (steps a ! j))}"
    by (rule renderWorkflow_edges) (rule that)
  from parents_nonempty [of ids "String_of_number (i + 1)" "steps a ! i"]
  obtain p where p: "p \<in> set (parents ids (String_of_number (i + 1)) (steps a ! i))"
    by (cases "parents ids (String_of_number (i + 1)) (steps a ! i)") auto
  with assms(2) have "\<exists>j. edge (String_of_number (i + 2)) = edge (String_of_number (j + 2)) \<and>
                  j < length (steps a) \<and>
                  p \<in> set (parents ids (String_of_number (j + 1)) (steps a ! j))"
    by (intro exI [of _ i]) simp
  then have "edge (String_of_number (i + 2)) \<in> set (out_edges g p)"
    unfolding ed by (rule CollectI)
  then show ?thesis ..
qed

subsection \<open>The keys of the connection map\<close>

lemma build_steps_ids_range:
  "build_steps ss k ids ns = Inr (k', ids', ns') \<Longrightarrow>
   \<forall>v\<in>snd ` set ids'.
      v \<in> snd ` set ids \<or> (\<exists>m. k < m \<and> m \<le> k + length ss \<and> v = String_of_number m)"
proof (induction ss arbitrary: k ids ns)
  case Nil
  then show ?case by simp
next
  case (Cons s ss)
  let ?ids = "assign_dict ids (step_key (k + 1) s) (String_of_number (k + 1))"
  from Cons.prems obtain node where
    r: "build_steps ss (k + 1) ?ids (ns @ [node]) = Inr (k', ids', ns')"
    by (auto simp: Let_def split: sum.splits)
  have sub: "snd ` set ?ids \<subseteq> insert (String_of_number (k + 1)) (snd ` set ids)"
    using update_values [of "step_key (k + 1) s" "String_of_number (k + 1)" ids]
    by (auto simp: assign_dict_def split: if_splits)
  show ?case
  proof
    fix v assume "v \<in> snd ` set ids'"
    with Cons.IH [OF r] consider "v \<in> snd ` set ?ids"
      | m where "k + 1 < m" "m \<le> k + 1 + length ss" "v = String_of_number m" by blast
    then show "v \<in> snd ` set ids \<or>
               (\<exists>m. k < m \<and> m \<le> k + length (s # ss) \<and> v = String_of_number m)"
    proof cases
      case 1
      with sub have "v = String_of_number (k + 1) \<or> v \<in> snd ` set ids" by blast
      then show ?thesis
      proof
        assume "v = String_of_number (k + 1)"
        then have "k < k + 1 \<and> k + 1 \<le> k + length (s # ss) \<and> v = String_of_number (k + 1)"
          by simp
        then show ?thesis by blast
      qed simp
    next
      case 2
      then have "k < m \<and> m \<le> k + length (s # ss) \<and> v = String_of_number m" by simp
      then show ?thesis by blast
    qed
  qed
qed

lemma resolve_node_id:
  assumes ids: "\<forall>v\<in>snd ` set ids. \<exists>m. 1 \<le> m \<and> m \<le> n \<and> v = String_of_number m"
    and prev: "\<exists>m. 1 \<le> m \<and> m \<le> n \<and> prev = String_of_number m"
    and k: "k \<notin> set Object_prototype_keys"
  shows "\<exists>m. 1 \<le> m \<and> m \<le> n \<and> resolve ids prev k = String_of_number m"
proof (cases "k = ''trigger''")
  case True
  from prev have "1 \<le> (1::nat) \<and> 1 \<le> n" by auto
  with True show ?thesis
    by (intro exI [of _ 1]) (simp add: resolve_def triggerId_eq)
next
  case False
  show ?thesis
  proof (cases "lookup_dict ids k")
    case (Own v)
    then have "map_of ids k = Some v"
      by (auto simp: lookup_dict_def split: option.splits if_splits)
    then have "(k, v) \<in> set ids" by (rule map_of_SomeD)
    then have "v \<in> snd ` set ids" by force
    with ids have "\<exists>m. 1 \<le> m \<and> m \<le> n \<and> v = String_of_number m" by blast
    with Own False prev show ?thesis by (simp add: resolve_def)
  next
    case (Inherited x)
    with k show ?thesis by (auto simp: lookup_dict_def split: option.splits if_splits)
  next
    case Missing
    with False prev show ?thesis by (simp add: resolve_def)
  qed
qed

lemma parents_node_id:
  assumes ids: "\<forall>v\<in>snd ` set ids. \<exists>m. 1 \<le> m \<and> m \<le> n \<and> v = String_of_number m"
    and prev: "\<exists>m. 1 \<le> m \<and> m \<le> n \<and> prev = String_of_number m"
    and ks: "\<forall>ks. dependsOn s = Some ks \<longrightarrow> (\<forall>k\<in>set ks. k \<notin> set Object_prototype_keys)"
    and p: "p \<in> set (parents ids prev s)"
  shows "\<exists>m. 1 \<le> m \<and> m \<le> n \<and> p = String_of_number m"
proof (cases "dependsOn s")
  case None
  with p prev show ?thesis by (simp add: parents_def)
next
  case (Some l)
  show ?thesis
  proof (cases "l = []")
    case True
    with Some p prev show ?thesis by (simp add: parents_def)
  next
    case False
    with Some p obtain k where "k \<in> set l" "p = resolve ids prev k"
      by (auto simp: parents_def)
    with ks Some resolve_node_id [OF ids prev, of k] show ?thesis by simp
  qed
qed

lemma add_edges_keys:
  assumes "\<forall>(k, v)\<in>set c. \<exists>es. v = JObj [(''main'', JArr [JArr es])]"
    and "\<forall>p\<in>set ps. p \<notin> set Object_prototype_keys"
    and "add_edges cur ps c = Inr c'"
  shows "fst ` set c' = fst ` set c \<union> set ps \<and> (distinct (map fst c) \<longrightarrow> distinct (map fst c'))"
  using assms
proof (induction ps arbitrary: c)
  case Nil
  then show ?case by simp
next
  case (Cons p ps)
  from Cons.prems(2) have p: "p \<notin> set Object_prototype_keys"
    and ps: "\<forall>p\<in>set ps. p \<notin> set Object_prototype_keys" by simp_all
  from Cons.prems(3) obtain c1 where
    c1: "add_edge cur c p = Inr c1" and r: "add_edges cur ps c1 = Inr c'"
    by (auto split: sum.splits)
  from add_edge_Inr [OF Cons.prems(1) p, of cur] c1 obtain v where
    u: "c1 = AList.update p v c" by simp
  have k1: "fst ` set c1 = insert p (fst ` set c)"
    unfolding u using AList.dom_update [of p v c] by simp
  have d1: "distinct (map fst c) \<longrightarrow> distinct (map fst c1)"
    unfolding u by (simp add: AList.distinct_update)
  from Cons.IH [OF add_edge_wf [OF Cons.prems(1) c1 p] ps r] k1 d1
  show ?case by auto
qed

lemma connect_keys:
  assumes "\<forall>v\<in>snd ` set ids. \<exists>m. v = String_of_number m"
    and "\<forall>(k, v)\<in>set c. \<exists>es. v = JObj [(''main'', JArr [JArr es])]"
    and "connect ids ss i (String_of_number (i + 1)) c = Inr (prev', c')"
  shows "fst ` set c' =
           fst ` set c \<union>
           {p. \<exists>j<length ss. p \<in> set (parents ids (String_of_number (i + j + 1)) (ss ! j))}
         \<and> (distinct (map fst c) \<longrightarrow> distinct (map fst c'))"
  using assms(2,3)
proof (induction ss arbitrary: i c)
  case Nil
  then show ?case by simp
next
  case (Cons s ss)
  let ?ps = "parents ids (String_of_number (i + 1)) s"
  let ?cur = "String_of_number (i + 2)"
  from Cons.prems(2) obtain c1 where
    c1: "add_edges ?cur ?ps c = Inr c1" and
    r: "connect ids ss (i + 1) (String_of_number (i + 1 + 1)) c1 = Inr (prev', c')"
    by (auto simp: Let_def split: sum.splits)
  have safe: "\<forall>p\<in>set ?ps. p \<notin> set Object_prototype_keys"
    by (rule parents_safe [OF assms(1) String_of_number_not_proto])
  from add_edges_Inr [OF Cons.prems(1) safe, of ?cur] c1
  have wf1: "\<forall>(k, v)\<in>set c1. \<exists>es. v = JObj [(''main'', JArr [JArr es])]" by auto
  from add_edges_keys [OF Cons.prems(1) safe c1] have
    k1: "fst ` set c1 = fst ` set c \<union> set ?ps" and
    d1: "distinct (map fst c) \<longrightarrow> distinct (map fst c1)" by blast+
  from Cons.IH [OF wf1 r] have
    k': "fst ` set c' =
           fst ` set c1 \<union>
           {p. \<exists>j<length ss. p \<in> set (parents ids (String_of_number (i + 1 + j + 1)) (ss ! j))}"
    and d': "distinct (map fst c1) \<longrightarrow> distinct (map fst c')" by blast+
  have split: "{p. \<exists>j<length (s # ss).
                   p \<in> set (parents ids (String_of_number (i + j + 1)) ((s # ss) ! j))}
        = set ?ps \<union>
          {p. \<exists>j<length ss. p \<in> set (parents ids (String_of_number (i + 1 + j + 1)) (ss ! j))}"
    (is "?L = ?A \<union> ?B")
  proof (intro set_eqI iffI)
    fix p assume "p \<in> ?L"
    then obtain j where j: "j < length (s # ss)"
      "p \<in> set (parents ids (String_of_number (i + j + 1)) ((s # ss) ! j))" by blast
    show "p \<in> ?A \<union> ?B"
    proof (cases j)
      case 0
      with j show ?thesis by simp
    next
      case (Suc j')
      with j have "j' < length ss"
        "p \<in> set (parents ids (String_of_number (i + 1 + j' + 1)) (ss ! j'))" by simp_all
      then show ?thesis by blast
    qed
  next
    fix p assume "p \<in> ?A \<union> ?B"
    then consider "p \<in> ?A" | "p \<in> ?B" by blast
    then show "p \<in> ?L"
    proof cases
      case 1
      then have "0 < length (s # ss) \<and>
          p \<in> set (parents ids (String_of_number (i + 0 + 1)) ((s # ss) ! 0))" by simp
      then show ?thesis by blast
    next
      case 2
      then obtain j where "j < length ss"
        "p \<in> set (parents ids (String_of_number (i + 1 + j + 1)) (ss ! j))" by blast
      then have "Suc j < length (s # ss) \<and>
          p \<in> set (parents ids (String_of_number (i + Suc j + 1)) ((s # ss) ! Suc j))" by simp
      then show ?thesis by blast
    qed
  qed
  from k1 k' have "fst ` set c' = fst ` set c \<union> (?A \<union> ?B)" by (simp add: Un_assoc)
  with split d1 d' show ?case by simp
qed

lemma renderWorkflow_connections:
  assumes "renderWorkflow a = Inr g"
  obtains ids c where
    "get_prop g ''connections'' = JObj c"
    "distinct (map fst c)"
    "\<forall>v\<in>snd ` set ids. \<exists>m. 1 \<le> m \<and> m \<le> length (steps a) + 1 \<and> v = String_of_number m"
    "fst ` set c =
       {p. \<exists>j<length (steps a). p \<in> set (parents ids (String_of_number (j + 1)) (steps a ! j))}"
    "\<And>p entry. (p, entry) \<in> set c \<Longrightarrow> entry = JObj [(''main'', JArr [JArr (out_edges g p)])]"
    "\<And>q. set (out_edges g q) =
            {edge (String_of_number (j + 2)) | j.
               j < length (steps a) \<and>
               q \<in> set (parents ids (String_of_number (j + 1)) (steps a ! j))}"
proof -
  from renderWorkflow_Inr [OF assms] obtain k ids ns prev c where
    b: "build_steps (steps a) 1 [] [trigger_node a] = Inr (k, ids, ns)" and
    con: "connect ids (steps a) 0 triggerId [] = Inr (prev, c)" and
    g: "g = JObj [(''nodes'', JArr ns), (''connections'', JObj c)]" by blast
  have ids: "\<forall>v\<in>snd ` set ids. \<exists>m. v = String_of_number m"
    by (rule build_steps_ids [OF b]) simp
  have con': "connect ids (steps a) 0 (String_of_number (0 + 1)) [] = Inr (prev, c)"
    using con by (simp add: triggerId_eq)
  have wf0: "\<forall>(k, v)\<in>set ([]::(string \<times> jsval) list). \<exists>es. v = JObj [(''main'', JArr [JArr es])]"
    by simp
  have f1: "get_prop g ''connections'' = JObj c" by (simp add: g get_prop_def)
  from connect_keys [OF ids wf0 con'] have
    f2: "distinct (map fst c)" and
    f4: "fst ` set c =
       {p. \<exists>j<length (steps a). p \<in> set (parents ids (String_of_number (j + 1)) (steps a ! j))}"
    by simp_all
  have f3: "\<forall>v\<in>snd ` set ids. \<exists>m. 1 \<le> m \<and> m \<le> length (steps a) + 1 \<and> v = String_of_number m"
  proof
    fix v assume "v \<in> snd ` set ids"
    with build_steps_ids_range [OF b] obtain m where
      "1 < m" "m \<le> 1 + length (steps a)" "v = String_of_number m" by auto
    then have "1 \<le> m \<and> m \<le> length (steps a) + 1 \<and> v = String_of_number m" by simp
    then show "\<exists>m. 1 \<le> m \<and> m \<le> length (steps a) + 1 \<and> v = String_of_number m" ..
  qed
  from connect_Inr [OF ids wf0, of "steps a" 0] obtain prev2 c2 where
    "connect ids (steps a) 0 (String_of_number (0 + 1)) [] = Inr (prev2, c2)" and
    wf2: "\<forall>(k, v)\<in>set c2. \<exists>es. v = JObj [(''main'', JArr [JArr es])]" by blast
  with con' have "c2 = c" by simp
  with wf2 have wf: "\<forall>(k, v)\<in>set c. \<exists>es. v = JObj [(''main'', JArr [JArr es])]" by simp
  have oe: "out_edges g q = main_edges (get_prop (JObj c) q)" for q
    by (simp add: g out_edges_def get_prop_def)
  have f5: "entry = JObj [(''main'', JArr [JArr (out_edges g p)])]" if "(p, entry) \<in> set c" for p entry
  proof -
    from that f2 have m: "map_of c p = Some entry" by simp
    from that wf obtain es where "entry = JObj [(''main'', JArr [JArr es])]" by blast
    with m show ?thesis by (simp add: oe get_prop_def)
  qed
  from assms obtain k' ids' ns' where
    b': "build_steps (steps a) 1 [] [trigger_node a] = Inr (k', ids', ns')" and
    ed: "\<And>q. set (out_edges g q) =
            {edge (String_of_number (j + 2)) | j.
               j < length (steps a) \<and>
               q \<in> set (parents ids' (String_of_number (j + 1)) (steps a ! j))}"
    by (rule renderWorkflow_edges) (rule that)
  from b b' have "ids' = ids" by simp
  with ed have f6: "set (out_edges g q) =
            {edge (String_of_number (j + 2)) | j.
               j < length (steps a) \<and>
               q \<in> set (parents ids (String_of_number (j + 1)) (steps a ! j))}" for q
    by simp
  from f1 f2 f3 f4 f5 f6 show ?thesis by (rule that)
qed

lemma trigger_node_shape:
  "field_names (trigger_node a) =
     (if trigger a = Manual then [''id'', ''name'', ''type'', ''typeVersion'', ''position'']
      else [''id'', ''name'', ''type'', ''typeVersion'', ''parameters'', ''position''])"
  "get_prop (trigger_node a) ''type'' =
     JStr (case trigger a of
             Manual \<Rightarrow> ''n8n-nodes-base.manualTrigger''
           | Cron \<Rightarrow> ''n8n-nodes-base.cron''
           | Webhook \<Rightarrow> ''n8n-nodes-base.webhook'')"
  "get_prop (trigger_node a) ''id'' = JStr (String_of_number 1)"
  by (cases "trigger a"; cases "cron a";
      simp add: trigger_node_def field_names_def get_prop_def Let_def triggerId_eq
        Manual_Trigger_spec_def Cron_spec_def Webhook_spec_def)+

lemma renderWorkflow_node_id:
  assumes "renderWorkflow a = Inr g" and "m \<le> length (steps a)"
  shows "get_prop (graph_nodes g ! m) ''id'' = JStr (String_of_number (m + 1))"
proof (cases m)
  case 0
  with renderWorkflow_nodes(2) [OF assms(1)] trigger_node_shape(3) [of a] show ?thesis by simp
next
  case (Suc i)
  with assms(2) have "i < length (steps a)" by simp
  from renderWorkflow_nodes(3) [OF assms(1) this] Suc
  have "step_node (m + 1) (steps a ! i) = Inr (graph_nodes g ! m)" by simp
  from step_node_Inr [OF this] show ?thesis by (simp add: get_prop_def)
qed

section \<open>The claims\<close>

text \<open>
  Claim C10. With \<open>trigger = cron\<close> and no cron expression, the parameters of the trigger
  node are the object \<open>{ triggerFunctions: [{ function: "everyMinute" }] }\<close> written in
  the code, while the defaults of the catalogue entry \<open>Cron\<close> are empty; the trigger node
  is the first node of every graph the renderer returns.
\<close>

theorem cron_without_expression_parameters:
  assumes "trigger a = Cron" and "cron a = None"
  shows "get_prop (trigger_node a) ''parameters'' =
           JObj [(''triggerFunctions'', JArr [JObj [(''function'', JStr ''everyMinute'')]])]
         \<and> defaults Cron_spec = []
         \<and> (\<forall>g. renderWorkflow a = Inr g \<longrightarrow> graph_nodes g ! 0 = trigger_node a)"
  using assms renderWorkflow_nodes(2) [of a]
  by (simp add: trigger_node_def get_prop_def Cron_spec_def)

theorem cron_without_expression_parameters_witness:
  "renderWorkflow \<lparr>name = ''w'', trigger = Cron, cron = None, steps = []\<rparr>
     = Inr (JObj [(''nodes'',
                   JArr [JObj [(''id'', JStr ''1''), (''name'', JStr ''Cron''),
                               (''type'', JStr ''n8n-nodes-base.cron''), (''typeVersion'', JNum 1),
                               (''parameters'',
                                JObj [(''triggerFunctions'',
                                       JArr [JObj [(''function'', JStr ''everyMinute'')]])]),
                               (''position'', JArr [JNum 280, JNum 300])]]),
                  (''connections'', JObj [])])
   \<and> get_prop (graph_nodes (JObj [(''nodes'',
                   JArr [JObj [(''id'', JStr ''1''), (''name'', JStr ''Cron''),
                               (''type'', JStr ''n8n-nodes-base.cron''), (''typeVersion'', JNum 1),
                               (''parameters'',
                                JObj [(''triggerFunctions'',
                                       JArr [JObj [(''function'', JStr ''everyMinute'')]])]),
                               (''position'', JArr [JNum 280, JNum 300])]]),
                  (''connections'', JObj [])]) ! 0) ''parameters''
       = JObj [(''triggerFunctions'', JArr [JObj [(''function'', JStr ''everyMinute'')]])]"
proof -
  let ?a = "\<lparr>name = ''w'', trigger = Cron, cron = None, steps = []\<rparr>"
  have t: "trigger ?a = Cron" and c: "cron ?a = None" by simp_all
  have r: "renderWorkflow ?a
     = Inr (JObj [(''nodes'',
                   JArr [JObj [(''id'', JStr ''1''), (''name'', JStr ''Cron''),
                               (''type'', JStr ''n8n-nodes-base.cron''), (''typeVersion'', JNum 1),
                               (''parameters'',
                                JObj [(''triggerFunctions'',
                                       JArr [JObj [(''function'', JStr ''everyMinute'')]])]),
                               (''position'', JArr [JNum 280, JNum 300])]]),
                  (''connections'', JObj [])])"
    by (simp add: renderWorkflow_def trigger_node_def triggerId_def Cron_spec_def nextPos_def)
  from cron_without_expression_parameters [OF t c] r show ?thesis by simp
qed

text \<open>
  Claim C6, as amended. With \<open>trigger = cron\<close> and a cron expression that is present and
  not the empty string, the parameters of the trigger node are exactly
  \<open>{ rule: cronExpression }\<close>: the expression replaces the parameters written in the
  code, nothing is merged. The trigger node is the first node of every graph the
  renderer returns.
\<close>

theorem cron_expression_replaces_parameters:
  assumes "trigger a = Cron" and "cron a = Some c" and "c \<noteq> []"
  shows "get_prop (trigger_node a) ''parameters'' = JObj [(''rule'', JStr c)]
         \<and> (\<forall>g. renderWorkflow a = Inr g \<longrightarrow> graph_nodes g ! 0 = trigger_node a)"
  using assms renderWorkflow_nodes(2) [of a]
  by (simp add: trigger_node_def get_prop_def)

theorem cron_expression_replaces_parameters_witness:
  "renderWorkflow \<lparr>name = ''w'', trigger = Cron, cron = Some ''0 * * * *'', steps = []\<rparr>
     = Inr (JObj [(''nodes'',
                   JArr [JObj [(''id'', JStr ''1''), (''name'', JStr ''Cron''),
                               (''type'', JStr ''n8n-nodes-base.cron''), (''typeVersion'', JNum 1),
                               (''parameters'', JObj [(''rule'', JStr ''0 * * * *'')]),
                               (''position'', JArr [JNum 280, JNum 300])]]),
                  (''connections'', JObj [])])
   \<and> get_prop (trigger_node \<lparr>name = ''w'', trigger = Cron, cron = Some ''0 * * * *'', steps = []\<rparr>)
         ''parameters'' = JObj [(''rule'', JStr ''0 * * * *'')]"
proof -
  let ?a = "\<lparr>name = ''w'', trigger = Cron, cron = Some ''0 * * * *'', steps = []\<rparr>"
  have t: "trigger ?a = Cron" and c: "cron ?a = Some ''0 * * * *''" and n: "''0 * * * *'' \<noteq> []"
    by simp_all
  have r: "renderWorkflow ?a
     = Inr (JObj [(''nodes'',
                   JArr [JObj [(''id'', JStr ''1''), (''name'', JStr ''Cron''),
                               (''type'', JStr ''n8n-nodes-base.cron''), (''typeVersion'', JNum 1),
                               (''parameters'', JObj [(''rule'', JStr ''0 * * * *'')]),
                               (''position'', JArr [JNum 280, JNum 300])]]),
                  (''connections'', JObj [])])"
    by code_simp
  from cron_expression_replaces_parameters [OF t c n] r show ?thesis by simp
qed

text \<open>
  Claim C6 as written fails for the cron expression \<open>""\<close>, which is present:
  \<open>if (args.cron)\<close> is false for it and the parameters written in the code stay.
\<close>

theorem cron_expression_empty_counterexample:
  "trigger \<lparr>name = ''w'', trigger = Cron, cron = Some '''', steps = []\<rparr> = Cron
   \<and> cron \<lparr>name = ''w'', trigger = Cron, cron = Some '''', steps = []\<rparr> = Some ''''
   \<and> renderWorkflow \<lparr>name = ''w'', trigger = Cron, cron = Some '''', steps = []\<rparr>
     = Inr (JObj [(''nodes'',
                   JArr [JObj [(''id'', JStr ''1''), (''name'', JStr ''Cron''),
                               (''type'', JStr ''n8n-nodes-base.cron''), (''typeVersion'', JNum 1),
                               (''parameters'',
                                JObj [(''triggerFunctions'',
                                       JArr [JObj [(''function'', JStr ''everyMinute'')]])]),
                               (''position'', JArr [JNum 280, JNum 300])]]),
                  (''connections'', JObj [])])
   \<and> get_prop (trigger_node \<lparr>name = ''w'', trigger = Cron, cron = Some '''', steps = []\<rparr>)
         ''parameters'' \<noteq> JObj [(''rule'', JStr '''')]"
  by code_simp

text \<open>
  Claim C8. The trigger node has id \<open>"1"\<close> and position \<open>(280, 300)\<close>. In a returned graph
  the node at ordinal \<open>k\<close> (from 2 on, one per step in input order, named after its
  step) has as id the decimal string of \<open>k\<close> and the position \<open>(280 + 220 * (k - 1), 300)\<close>.
\<close>

theorem node_ids_and_positions:
  "get_prop (trigger_node a) ''id'' = JStr ''1''
   \<and> get_prop (trigger_node a) ''position'' = JArr [JNum 280, JNum 300]
   \<and> (\<forall>g. renderWorkflow a = Inr g \<longrightarrow>
         length (graph_nodes g) = length (steps a) + 1
         \<and> graph_nodes g ! 0 = trigger_node a
         \<and> (\<forall>k. 2 \<le> k \<and> k \<le> length (steps a) + 1 \<longrightarrow>
               get_prop (graph_nodes g ! (k - 1)) ''name'' = JStr (Step.type (steps a ! (k - 2)))
               \<and> get_prop (graph_nodes g ! (k - 1)) ''id'' = JStr (String_of_number k)
               \<and> get_prop (graph_nodes g ! (k - 1)) ''position''
                   = JArr [JNum (280 + 220 * (int k - 1)), JNum 300]))"
proof (intro conjI allI impI)
  show "get_prop (trigger_node a) ''id'' = JStr ''1''"
    by (cases "trigger a"; cases "cron a")
       (simp_all add: trigger_node_def get_prop_def triggerId_def Let_def)
  show "get_prop (trigger_node a) ''position'' = JArr [JNum 280, JNum 300]"
    by (cases "trigger a"; cases "cron a")
       (simp_all add: trigger_node_def get_prop_def nextPos_def Let_def)
next
  fix g assume r: "renderWorkflow a = Inr g"
  show "length (graph_nodes g) = length (steps a) + 1" by (rule renderWorkflow_nodes(1) [OF r])
  show "graph_nodes g ! 0 = trigger_node a" by (rule renderWorkflow_nodes(2) [OF r])
  fix k assume k: "2 \<le> k \<and> k \<le> length (steps a) + 1"
  then have i: "k - 2 < length (steps a)" by arith
  from k have e: "k - 2 + 2 = k" "k - 2 + 1 = k - 1" by arith+
  from renderWorkflow_nodes(3) [OF r i]
  have "step_node k (steps a ! (k - 2)) = Inr (graph_nodes g ! (k - 1))" unfolding e .
  note n = step_node_Inr [OF this]
  show "get_prop (graph_nodes g ! (k - 1)) ''name'' = JStr (Step.type (steps a ! (k - 2)))"
    by (subst n) (simp add: get_prop_def)
  show "get_prop (graph_nodes g ! (k - 1)) ''id'' = JStr (String_of_number k)"
    by (subst n) (simp add: get_prop_def)
  have "int (k - 1) = int k - 1" using k by arith
  then show "get_prop (graph_nodes g ! (k - 1)) ''position''
                   = JArr [JNum (280 + 220 * (int k - 1)), JNum 300]"
    by (subst n) (simp add: get_prop_def nextPos_def)
qed


theorem node_ids_and_positions_witness:
  "\<exists>g. renderWorkflow
          \<lparr>name = ''w'', trigger = Manual, cron = None,
           steps = [\<lparr>id' = None, type = ''HTTP Request'', parameters = [], dependsOn = None\<rparr>,
                    \<lparr>id' = None, type = ''Set'', parameters = [], dependsOn = None\<rparr>]\<rparr> = Inr g
       \<and> length (graph_nodes g) = 3
       \<and> get_prop (graph_nodes g ! 0) ''id'' = JStr ''1''
       \<and> get_prop (graph_nodes g ! 0) ''position'' = JArr [JNum 280, JNum 300]
       \<and> get_prop (graph_nodes g ! 2) ''name'' = JStr ''Set''
       \<and> get_prop (graph_nodes g ! 2) ''id'' = JStr ''3''
       \<and> get_prop (graph_nodes g ! 2) ''position'' = JArr [JNum 720, JNum 300]"
proof -
  let ?a = "\<lparr>name = ''w'', trigger = Manual, cron = None,
           steps = [\<lparr>id' = None, type = ''HTTP Request'', parameters = [], dependsOn = None\<rparr>,
                    \<lparr>id' = None, type = ''Set'', parameters = [], dependsOn = None\<rparr>]\<rparr>"
  have "renderWorkflow ?a \<noteq> Inl TypeError" by code_simp
  then obtain g where g: "renderWorkflow ?a = Inr g"
    by (cases "renderWorkflow ?a") (auto intro: js_error.exhaust)
  have s3: "String_of_number 3 = ''3''" by code_simp
  from node_ids_and_positions [of ?a] g have
    "length (graph_nodes g) = length (steps ?a) + 1"
    "graph_nodes g ! 0 = trigger_node ?a"
    "get_prop (trigger_node ?a) ''id'' = JStr ''1''"
    "get_prop (trigger_node ?a) ''position'' = JArr [JNum 280, JNum 300]"
    "2 \<le> (3::nat) \<and> 3 \<le> length (steps ?a) + 1 \<longrightarrow>
       get_prop (graph_nodes g ! (3 - 1)) ''name'' = JStr (Step.type (steps ?a ! (3 - 2)))
       \<and> get_prop (graph_nodes g ! (3 - 1)) ''id'' = JStr (String_of_number 3)
       \<and> get_prop (graph_nodes g ! (3 - 1)) ''position'' = JArr [JNum (280 + 220 * (int 3 - 1)), JNum 300]"
    by blast+
  with g s3 show ?thesis by (intro exI [of _ g]) simp
qed

text \<open>
  Claim C4. In a returned graph the parameters of the node of a step are the shallow
  merge of the catalogue entry's default parameters with the step's own parameters:
  every key reads the step's value when the step has the key, the default's value
  otherwise. With defaults \<open>{a:1, b:2}\<close> and step parameters \<open>{b:3, c:4}\<close> the node's
  parameters are \<open>{a:1, b:3, c:4}\<close>.
\<close>

theorem parameters_shallow_merge:
  assumes "renderWorkflow a = Inr g" and "i < length (steps a)"
    and "distinct (map fst (parameters (steps a ! i)))"
  shows "(\<exists>ps. get_prop (graph_nodes g ! (i + 1)) ''parameters'' = JObj ps \<and>
            (\<forall>k. map_of ps k =
                  (case map_of (parameters (steps a ! i)) k of
                     Some v \<Rightarrow> Some v
                   | None \<Rightarrow> map_of (default_parameters (Step.type (steps a ! i))) k)))
         \<and> step_node_in
             [(''X'', \<lparr>display = ''X'', type = ''x'',
                       defaults = [(''parameters'', JObj [(''a'', JNum 1), (''b'', JNum 2)])]\<rparr>)]
             2 \<lparr>id' = None, type = ''X'', parameters = [(''b'', JNum 3), (''c'', JNum 4)],
                dependsOn = None\<rparr>
           = Inr (JObj [(''id'', JStr ''2''), (''name'', JStr ''X''), (''type'', JStr ''x''),
                        (''typeVersion'', JNum 1),
                        (''parameters'', JObj [(''a'', JNum 1), (''b'', JNum 3), (''c'', JNum 4)]),
                        (''position'', JArr [JNum 500, JNum 300])])"
proof
  let ?s = "steps a ! i"
  let ?ps = "spread (spread [] (JObj (default_parameters (Step.type ?s)))) (JObj (parameters ?s))"
  from renderWorkflow_nodes(3) [OF assms(1,2)]
  have "step_node (i + 2) ?s = Inr (graph_nodes g ! (i + 1))" .
  note n = step_node_Inr [OF this]
  have p: "get_prop (graph_nodes g ! (i + 1)) ''parameters'' = JObj ?ps"
    by (subst n) (simp add: get_prop_def)
  have "map_of ?ps k =
          (case map_of (parameters ?s) k of
             Some v \<Rightarrow> Some v
           | None \<Rightarrow> map_of (default_parameters (Step.type ?s)) k)" for k
    by (simp add: map_of_spread map_of_rev_distinct [OF assms(3)]
          map_of_rev_distinct [OF default_parameters_distinct] map_add_def)
  with p show "\<exists>ps. get_prop (graph_nodes g ! (i + 1)) ''parameters'' = JObj ps \<and>
            (\<forall>k. map_of ps k =
                  (case map_of (parameters ?s) k of
                     Some v \<Rightarrow> Some v
                   | None \<Rightarrow> map_of (default_parameters (Step.type ?s)) k))" by blast
next
  show "step_node_in
             [(''X'', \<lparr>display = ''X'', type = ''x'',
                       defaults = [(''parameters'', JObj [(''a'', JNum 1), (''b'', JNum 2)])]\<rparr>)]
             2 \<lparr>id' = None, type = ''X'', parameters = [(''b'', JNum 3), (''c'', JNum 4)],
                dependsOn = None\<rparr>
           = Inr (JObj [(''id'', JStr ''2''), (''name'', JStr ''X''), (''type'', JStr ''x''),
                        (''typeVersion'', JNum 1),
                        (''parameters'', JObj [(''a'', JNum 1), (''b'', JNum 3), (''c'', JNum 4)]),
                        (''position'', JArr [JNum 500, JNum 300])])"
    by code_simp
qed

theorem parameters_shallow_merge_witness:
  "\<exists>g. renderWorkflow
          \<lparr>name = ''w'', trigger = Manual, cron = None,
           steps = [\<lparr>id' = None, type = ''Webhook'',
                     parameters = [(''path'', JStr ''orders''), (''responseMode'', JStr ''onReceived'')],
                     dependsOn = None\<rparr>]\<rparr> = Inr g
       \<and> get_prop (graph_nodes g ! 1) ''parameters''
           = JObj [(''path'', JStr ''orders''), (''httpMethod'', JStr ''POST''),
                   (''responseMode'', JStr ''onReceived'')]
       \<and> get_prop (get_prop (graph_nodes g ! 1) ''parameters'') ''path'' = JStr ''orders''
       \<and> get_prop (get_prop (graph_nodes g ! 1) ''parameters'') ''httpMethod'' = JStr ''POST''"
proof -
  let ?s = "\<lparr>id' = None, type = ''Webhook'',
                     parameters = [(''path'', JStr ''orders''), (''responseMode'', JStr ''onReceived'')],
                     dependsOn = None\<rparr>"
  let ?a = "\<lparr>name = ''w'', trigger = Manual, cron = None, steps = [?s]\<rparr>"
  let ?g = "JObj [(''nodes'',
                   JArr [JObj [(''id'', JStr ''1''), (''name'', JStr ''Manual Trigger''),
                               (''type'', JStr ''n8n-nodes-base.manualTrigger''),
                               (''typeVersion'', JNum 1),
                               (''position'', JArr [JNum 280, JNum 300])],
                         JObj [(''id'', JStr ''2''), (''name'', JStr ''Webhook''),
                               (''type'', JStr ''n8n-nodes-base.webhook''),
                               (''typeVersion'', JNum 1),
                               (''parameters'',
                                JObj [(''path'', JStr ''orders''), (''httpMethod'', JStr ''POST''),
                                      (''responseMode'', JStr ''onReceived'')]),
                               (''position'', JArr [JNum 500, JNum 300])]]),
                  (''connections'',
                   JObj [(''1'', JObj [(''main'',
                            JArr [JArr [JObj [(''node'', JStr ''2''), (''type'', JStr ''main''),
                                              (''index'', JNum 0)]]])])])]"
  have g: "renderWorkflow ?a = Inr ?g" by code_simp
  have i: "0 < length (steps ?a)" by simp
  have d: "distinct (map fst (parameters (steps ?a ! 0)))" by simp
  have dp: "default_parameters ''Webhook'' = [(''path'', JStr ''hook''), (''httpMethod'', JStr ''POST'')]"
    by code_simp
  from parameters_shallow_merge [OF g i d] obtain ps where
    ps: "get_prop (graph_nodes ?g ! (0 + 1)) ''parameters'' = JObj ps" and
    m: "\<forall>k. map_of ps k =
          (case map_of (parameters (steps ?a ! 0)) k of
             Some v \<Rightarrow> Some v
           | None \<Rightarrow> map_of (default_parameters (Step.type (steps ?a ! 0))) k)"
    by blast
  from m have "map_of ps ''path'' = Some (JStr ''orders'')"
    and "map_of ps ''httpMethod'' = Some (JStr ''POST'')"
    by (simp_all add: dp)
  with ps have "get_prop (get_prop (graph_nodes ?g ! 1) ''parameters'') ''path'' = JStr ''orders''"
    and "get_prop (get_prop (graph_nodes ?g ! 1) ''parameters'') ''httpMethod'' = JStr ''POST''"
    by (simp_all add: get_prop_def)
  moreover have "get_prop (graph_nodes ?g ! 1) ''parameters''
           = JObj [(''path'', JStr ''orders''), (''httpMethod'', JStr ''POST''),
                   (''responseMode'', JStr ''onReceived'')]"
    by (simp add: graph_nodes_def get_prop_def)
  ultimately show ?thesis using g by (intro exI [of _ ?g]) simp
qed

text \<open>
  Claim C7. When the renderer returns a graph, the connection loop run on the steps up
  to position \<open>i\<close> ends with the cursor \<open>prev\<close> equal to the id given to step \<open>i\<close>,
  whatever the \<open>dependsOn\<close> of that step; so a following step without \<open>dependsOn\<close> of
  its own (absent or empty) gets an edge from the node of step \<open>i\<close>.
\<close>

theorem previous_cursor_is_last_step:
  assumes "renderWorkflow a = Inr g" and "i < length (steps a)"
  shows "\<exists>k ids ns.
           build_steps (steps a) 1 [] [trigger_node a] = Inr (k, ids, ns) \<and>
           (\<exists>c. connect ids (take (i + 1) (steps a)) 0 triggerId []
                  = Inr (String_of_number (i + 2), c)) \<and>
           get_prop (graph_nodes g ! (i + 1)) ''id'' = JStr (String_of_number (i + 2)) \<and>
           (i + 1 < length (steps a) \<longrightarrow>
            dependsOn (steps a ! (i + 1)) = None \<or> dependsOn (steps a ! (i + 1)) = Some [] \<longrightarrow>
              edge (String_of_number (i + 3)) \<in> set (out_edges g (String_of_number (i + 2))))"
proof -
  from assms(1) obtain k ids ns where
    b: "build_steps (steps a) 1 [] [trigger_node a] = Inr (k, ids, ns)" and
    ids: "\<forall>v\<in>snd ` set ids. \<exists>m. v = String_of_number m" and
    ed: "\<And>q. set (out_edges g q) =
                  {edge (String_of_number (j + 2)) | j.
                     j < length (steps a) \<and>
                     q \<in> set (parents ids (String_of_number (j + 1)) (steps a ! j))}"
    by (rule renderWorkflow_edges) (rule that)
  from connect_Inr [OF ids, of "[]" "take (i + 1) (steps a)" 0] obtain prev' c' where
    pre: "connect ids (take (i + 1) (steps a)) 0 triggerId [] = Inr (prev', c')"
    by (auto simp: triggerId_eq)
  from assms(2) have "take (i + 1) (steps a) \<noteq> []" "length (take (i + 1) (steps a)) = i + 1"
    by auto
  with connect_prev [OF pre] have prev': "prev' = String_of_number (i + 2)" by simp
  from renderWorkflow_nodes(3) [OF assms]
  have "step_node (i + 2) (steps a ! i) = Inr (graph_nodes g ! (i + 1))" .
  note n = step_node_Inr [OF this]
  have idn: "get_prop (graph_nodes g ! (i + 1)) ''id'' = JStr (String_of_number (i + 2))"
    by (subst n) (simp add: get_prop_def)
  have nxt: "edge (String_of_number (i + 3)) \<in> set (out_edges g (String_of_number (i + 2)))"
    if lt: "i + 1 < length (steps a)"
      and dep: "dependsOn (steps a ! (i + 1)) = None \<or> dependsOn (steps a ! (i + 1)) = Some []"
  proof -
    from dep have "parents ids (String_of_number (i + 1 + 1)) (steps a ! (i + 1))
                     = [String_of_number (i + 1 + 1)]"
      by (auto simp: parents_def)
    then have "String_of_number (i + 2)
                 \<in> set (parents ids (String_of_number (i + 1 + 1)) (steps a ! (i + 1)))"
      by simp
    with lt have "\<exists>j. edge (String_of_number (i + 3)) = edge (String_of_number (j + 2)) \<and>
                  j < length (steps a) \<and>
                  String_of_number (i + 2)
                    \<in> set (parents ids (String_of_number (j + 1)) (steps a ! j))"
      by (intro exI [of _ "i + 1"]) (simp add: numeral_3_eq_3)
    then show ?thesis unfolding ed by (rule CollectI)
  qed
  show ?thesis
  proof (intro exI conjI impI)
    show "build_steps (steps a) 1 [] [trigger_node a] = Inr (k, ids, ns)" by (rule b)
    from pre show "connect ids (take (i + 1) (steps a)) 0 triggerId []
                  = Inr (String_of_number (i + 2), c')" by (simp add: prev')
    show "get_prop (graph_nodes g ! (i + 1)) ''id'' = JStr (String_of_number (i + 2))" by (rule idn)
  next
    assume "i + 1 < length (steps a)"
      and "dependsOn (steps a ! (i + 1)) = None \<or> dependsOn (steps a ! (i + 1)) = Some []"
    then show "edge (String_of_number (i + 3)) \<in> set (out_edges g (String_of_number (i + 2)))"
      by (rule nxt)
  qed
qed

theorem previous_cursor_is_last_step_witness:
  "\<exists>g. renderWorkflow
          \<lparr>name = ''w'', trigger = Manual, cron = None,
           steps = [\<lparr>id' = Some ''a'', type = ''HTTP Request'', parameters = [],
                     dependsOn = Some [''c'']\<rparr>,
                    \<lparr>id' = Some ''b'', type = ''HTTP Request'', parameters = [],
                     dependsOn = None\<rparr>,
                    \<lparr>id' = Some ''c'', type = ''HTTP Request'', parameters = [],
                     dependsOn = Some [''trigger'']\<rparr>]\<rparr> = Inr g
       \<and> get_prop (graph_nodes g ! 1) ''id'' = JStr ''2''
       \<and> edge ''3'' \<in> set (out_edges g ''2'')"
proof -
  let ?a = "\<lparr>name = ''w'', trigger = Manual, cron = None,
           steps = [\<lparr>id' = Some ''a'', type = ''HTTP Request'', parameters = [],
                     dependsOn = Some [''c'']\<rparr>,
                    \<lparr>id' = Some ''b'', type = ''HTTP Request'', parameters = [],
                     dependsOn = None\<rparr>,
                    \<lparr>id' = Some ''c'', type = ''HTTP Request'', parameters = [],
                     dependsOn = Some [''trigger'']\<rparr>]\<rparr>"
  have "renderWorkflow ?a \<noteq> Inl TypeError" by code_simp
  then obtain g where g: "renderWorkflow ?a = Inr g"
    by (cases "renderWorkflow ?a") (auto intro: js_error.exhaust)
  have i: "0 < length (steps ?a)" by simp
  have s2: "String_of_number (0 + 2) = ''2''" and s3: "String_of_number (0 + 3) = ''3''"
    by code_simp+
  from previous_cursor_is_last_step [OF g i]
  have n: "get_prop (graph_nodes g ! (0 + 1)) ''id'' = JStr (String_of_number (0 + 2))"
    and e: "0 + 1 < length (steps ?a) \<longrightarrow>
            dependsOn (steps ?a ! (0 + 1)) = None \<or> dependsOn (steps ?a ! (0 + 1)) = Some [] \<longrightarrow>
              edge (String_of_number (0 + 3)) \<in> set (out_edges g (String_of_number (0 + 2)))"
    by blast+
  from n have "get_prop (graph_nodes g ! 1) ''id'' = JStr ''2''" unfolding s2 by simp
  moreover from e have "edge ''3'' \<in> set (out_edges g ''2'')" unfolding s2 s3 by simp
  ultimately show ?thesis using g by (intro exI [of _ g]) simp
qed

text \<open>
  Claim C3 as written fails: the nodes the renderer builds have no field
  \<open>engineType\<close> and its edges no field \<open>targetNodeId\<close>, \<open>portType\<close> or \<open>portIndex\<close>; the
  entry of a source is an object with the one key \<open>main\<close>.
\<close>

theorem graph_field_names_counterexample:
  "renderWorkflow
     \<lparr>name = ''w'', trigger = Manual, cron = None,
      steps = [\<lparr>id' = None, type = ''HTTP Request'', parameters = [], dependsOn = None\<rparr>]\<rparr>
   = Inr (JObj [(''nodes'',
                 JArr [JObj [(''id'', JStr ''1''), (''name'', JStr ''Manual Trigger''),
                             (''type'', JStr ''n8n-nodes-base.manualTrigger''),
                             (''typeVersion'', JNum 1),
                             (''position'', JArr [JNum 280, JNum 300])],
                       JObj [(''id'', JStr ''2''), (''name'', JStr ''HTTP Request''),
                             (''type'', JStr ''n8n-nodes-base.httpRequest''),
                             (''typeVersion'', JNum 1), (''parameters'', JObj []),
                             (''position'', JArr [JNum 500, JNum 300])]]),
                (''connections'',
                 JObj [(''1'', JObj [(''main'',
                          JArr [JArr [JObj [(''node'', JStr ''2''), (''type'', JStr ''main''),
                                            (''index'', JNum 0)]]])])])])
   \<and> ''engineType'' \<notin> set (field_names
         (JObj [(''id'', JStr ''2''), (''name'', JStr ''HTTP Request''),
                (''type'', JStr ''n8n-nodes-base.httpRequest''),
                (''typeVersion'', JNum 1), (''parameters'', JObj []),
                (''position'', JArr [JNum 500, JNum 300])]))
   \<and> ''targetNodeId'' \<notin> set (field_names
         (JObj [(''node'', JStr ''2''), (''type'', JStr ''main''), (''index'', JNum 0)]))
   \<and> ''portType'' \<notin> set (field_names
         (JObj [(''node'', JStr ''2''), (''type'', JStr ''main''), (''index'', JNum 0)]))
   \<and> ''portIndex'' \<notin> set (field_names
         (JObj [(''node'', JStr ''2''), (''type'', JStr ''main''), (''index'', JNum 0)]))"
  by code_simp

text \<open>
  Claim C3, as amended. A returned graph is an object with the keys \<open>nodes\<close> (an array,
  the trigger node and one node per step) and \<open>connections\<close> (an object). The trigger
  node has the fields \<open>id\<close>, \<open>name\<close>, \<open>type\<close>, \<open>typeVersion\<close>, \<open>position\<close> and, unless
  the trigger is manual, \<open>parameters\<close> before \<open>position\<close>; every step node has all
  six. The type identifier is the string under \<open>type\<close>: the catalogue's type of the
  trigger, and for a step the type of its catalogue entry or else the step's own type
  string. Each key of \<open>connections\<close> occurs once and its entry is
  \<open>{ main: [[edge, ...]] }\<close> with at least one edge; every edge is
  \<open>{ node: id, type: "main", index: 0 }\<close> with \<open>id\<close> the id of a step node of the graph.
  When no \<open>dependsOn\<close> token is a property name of \<open>Object.prototype\<close>, every key of
  \<open>connections\<close> is the id of a node of the graph.
\<close>

theorem graph_field_names:
  assumes "renderWorkflow a = Inr g"
  shows "field_names g = [''nodes'', ''connections'']
         \<and> get_prop g ''nodes'' = JArr (graph_nodes g)
         \<and> length (graph_nodes g) = length (steps a) + 1
         \<and> field_names (graph_nodes g ! 0) =
             (if trigger a = Manual then [''id'', ''name'', ''type'', ''typeVersion'', ''position'']
              else [''id'', ''name'', ''type'', ''typeVersion'', ''parameters'', ''position''])
         \<and> get_prop (graph_nodes g ! 0) ''type'' =
             JStr (case trigger a of
                     Manual \<Rightarrow> ''n8n-nodes-base.manualTrigger''
                   | Cron \<Rightarrow> ''n8n-nodes-base.cron''
                   | Webhook \<Rightarrow> ''n8n-nodes-base.webhook'')
         \<and> (\<forall>i<length (steps a).
               field_names (graph_nodes g ! (i + 1))
                 = [''id'', ''name'', ''type'', ''typeVersion'', ''parameters'', ''position'']
               \<and> get_prop (graph_nodes g ! (i + 1)) ''type'' =
                   JStr (case map_of NODE_SPECS (Step.type (steps a ! i)) of
                           Some sp \<Rightarrow> NodeSpec.type sp
                         | None \<Rightarrow> Step.type (steps a ! i)))
         \<and> (\<exists>c. get_prop g ''connections'' = JObj c \<and> distinct (map fst c) \<and>
               (\<forall>(p, entry)\<in>set c.
                  entry = JObj [(''main'', JArr [JArr (out_edges g p)])]
                  \<and> out_edges g p \<noteq> []
                  \<and> (\<forall>e\<in>set (out_edges g p).
                        \<exists>j<length (steps a).
                          e = JObj [(''node'', JStr (String_of_number (j + 2))),
                                    (''type'', JStr ''main''), (''index'', JNum 0)]
                          \<and> get_prop (graph_nodes g ! (j + 1)) ''id''
                              = JStr (String_of_number (j + 2)))
                  \<and> ((\<forall>s\<in>set (steps a). \<forall>ks. dependsOn s = Some ks \<longrightarrow>
                         (\<forall>k\<in>set ks. k \<notin> set Object_prototype_keys)) \<longrightarrow>
                      (\<exists>m\<le>length (steps a). get_prop (graph_nodes g ! m) ''id'' = JStr p))))"
proof -
  from renderWorkflow_Inr [OF assms] obtain k0 ids0 ns c0 where
    g: "g = JObj [(''nodes'', JArr ns), (''connections'', JObj c0)]" by blast
  have gn: "graph_nodes g = ns" by (simp add: g graph_nodes_def get_prop_def)
  have f1: "field_names g = [''nodes'', ''connections'']" by (simp add: g field_names_def)
  have f2: "get_prop g ''nodes'' = JArr (graph_nodes g)" by (simp add: gn) (simp add: g get_prop_def)
  note f3 = renderWorkflow_nodes(1) [OF assms]
  have n0: "graph_nodes g ! 0 = trigger_node a" by (rule renderWorkflow_nodes(2) [OF assms])
  note f4 = trigger_node_shape(1) [of a, folded n0]
  note f5 = trigger_node_shape(2) [of a, folded n0]
  have f6: "\<forall>i<length (steps a).
               field_names (graph_nodes g ! (i + 1))
                 = [''id'', ''name'', ''type'', ''typeVersion'', ''parameters'', ''position'']
               \<and> get_prop (graph_nodes g ! (i + 1)) ''type'' =
                   JStr (case map_of NODE_SPECS (Step.type (steps a ! i)) of
                           Some sp \<Rightarrow> NodeSpec.type sp
                         | None \<Rightarrow> Step.type (steps a ! i))"
  proof (intro allI impI)
    fix i assume "i < length (steps a)"
    from step_node_Inr [OF renderWorkflow_nodes(3) [OF assms this]]
    show "field_names (graph_nodes g ! (i + 1))
                 = [''id'', ''name'', ''type'', ''typeVersion'', ''parameters'', ''position'']
               \<and> get_prop (graph_nodes g ! (i + 1)) ''type'' =
                   JStr (case map_of NODE_SPECS (Step.type (steps a ! i)) of
                           Some sp \<Rightarrow> NodeSpec.type sp
                         | None \<Rightarrow> Step.type (steps a ! i))"
      by (simp add: field_names_def get_prop_def)
  qed
  from assms obtain ids c where
    c: "get_prop g ''connections'' = JObj c" and
    d: "distinct (map fst c)" and
    ids: "\<forall>v\<in>snd ` set ids. \<exists>m. 1 \<le> m \<and> m \<le> length (steps a) + 1 \<and> v = String_of_number m" and
    keys: "fst ` set c =
       {p. \<exists>j<length (steps a). p \<in> set (parents ids (String_of_number (j + 1)) (steps a ! j))}" and
    ent: "\<And>p entry. (p, entry) \<in> set c \<Longrightarrow> entry = JObj [(''main'', JArr [JArr (out_edges g p)])]" and
    ed: "\<And>q. set (out_edges g q) =
            {edge (String_of_number (j + 2)) | j.
               j < length (steps a) \<and>
               q \<in> set (parents ids (String_of_number (j + 1)) (steps a ! j))}"
    by (rule renderWorkflow_connections) (rule that)
  have f7: "entry = JObj [(''main'', JArr [JArr (out_edges g p)])]
            \<and> out_edges g p \<noteq> []
            \<and> (\<forall>e\<in>set (out_edges g p).
                  \<exists>j<length (steps a).
                    e = JObj [(''node'', JStr (String_of_number (j + 2))),
                              (''type'', JStr ''main''), (''index'', JNum 0)]
                    \<and> get_prop (graph_nodes g ! (j + 1)) ''id'' = JStr (String_of_number (j + 2)))
            \<and> ((\<forall>s\<in>set (steps a). \<forall>ks. dependsOn s = Some ks \<longrightarrow>
                   (\<forall>k\<in>set ks. k \<notin> set Object_prototype_keys)) \<longrightarrow>
                (\<exists>m\<le>length (steps a). get_prop (graph_nodes g ! m) ''id'' = JStr p))"
    if pe: "(p, entry) \<in> set c" for p entry
  proof (intro conjI impI ballI)
    from pe show "entry = JObj [(''main'', JArr [JArr (out_edges g p)])]" by (rule ent)
  next
    from pe have "p \<in> fst ` set c" by force
    with keys obtain j where j: "j < length (steps a)"
      "p \<in> set (parents ids (String_of_number (j + 1)) (steps a ! j))" by blast
    then have "\<exists>j'. edge (String_of_number (j + 2)) = edge (String_of_number (j' + 2)) \<and>
                 j' < length (steps a) \<and>
                 p \<in> set (parents ids (String_of_number (j' + 1)) (steps a ! j'))" by blast
    then have "edge (String_of_number (j + 2)) \<in> set (out_edges g p)"
      unfolding ed by (rule CollectI)
    then show "out_edges g p \<noteq> []" by auto
  next
    fix e assume "e \<in> set (out_edges g p)"
    then obtain j where j: "e = edge (String_of_number (j + 2))" "j < length (steps a)"
      unfolding ed by blast
    from j(2) have "j + 1 \<le> length (steps a)" by simp
    from renderWorkflow_node_id [OF assms this]
    have "get_prop (graph_nodes g ! (j + 1)) ''id'' = JStr (String_of_number (j + 2))"
      by (simp add: add.commute)
    with j have "j < length (steps a) \<and>
           e = JObj [(''node'', JStr (String_of_number (j + 2))),
                     (''type'', JStr ''main''), (''index'', JNum 0)]
           \<and> get_prop (graph_nodes g ! (j + 1)) ''id'' = JStr (String_of_number (j + 2))"
      by (simp add: edge_def)
    then show "\<exists>j<length (steps a).
                 e = JObj [(''node'', JStr (String_of_number (j + 2))),
                           (''type'', JStr ''main''), (''index'', JNum 0)]
                 \<and> get_prop (graph_nodes g ! (j + 1)) ''id'' = JStr (String_of_number (j + 2))"
      by blast
  next
    assume tok: "\<forall>s\<in>set (steps a). \<forall>ks. dependsOn s = Some ks \<longrightarrow>
                   (\<forall>k\<in>set ks. k \<notin> set Object_prototype_keys)"
    from pe have "p \<in> fst ` set c" by force
    with keys obtain j where j: "j < length (steps a)"
      "p \<in> set (parents ids (String_of_number (j + 1)) (steps a ! j))" by blast
    from j(1) have pv: "\<exists>m. 1 \<le> m \<and> m \<le> length (steps a) + 1 \<and>
                          String_of_number (j + 1) = String_of_number m"
      by (intro exI [of _ "j + 1"]) simp
    from j(1) have "steps a ! j \<in> set (steps a)" by (rule nth_mem)
    with tok have ks: "\<forall>ks. dependsOn (steps a ! j) = Some ks \<longrightarrow>
                   (\<forall>k\<in>set ks. k \<notin> set Object_prototype_keys)" by (rule bspec)
    from parents_node_id [OF ids pv ks j(2)] obtain m where
      m: "1 \<le> m" "m \<le> length (steps a) + 1" "p = String_of_number m" by blast
    then have le: "m - 1 \<le> length (steps a)" and e: "m - 1 + 1 = m" by simp_all
    from renderWorkflow_node_id [OF assms le]
    have "get_prop (graph_nodes g ! (m - 1)) ''id'' = JStr (String_of_number m)"
      unfolding e .
    with le m(3)
    have "m - 1 \<le> length (steps a) \<and> get_prop (graph_nodes g ! (m - 1)) ''id'' = JStr p"
      by simp
    then show "\<exists>m\<le>length (steps a). get_prop (graph_nodes g ! m) ''id'' = JStr p" by blast
  qed
  have f8: "\<exists>c. get_prop g ''connections'' = JObj c \<and> distinct (map fst c) \<and>
               (\<forall>(p, entry)\<in>set c.
                  entry = JObj [(''main'', JArr [JArr (out_edges g p)])]
                  \<and> out_edges g p \<noteq> []
                  \<and> (\<forall>e\<in>set (out_edges g p).
                        \<exists>j<length (steps a).
                          e = JObj [(''node'', JStr (String_of_number (j + 2))),
                                    (''type'', JStr ''main''), (''index'', JNum 0)]
                          \<and> get_prop (graph_nodes g ! (j + 1)) ''id''
                              = JStr (String_of_number (j + 2)))
                  \<and> ((\<forall>s\<in>set (steps a). \<forall>ks. dependsOn s = Some ks \<longrightarrow>
                         (\<forall>k\<in>set ks. k \<notin> set Object_prototype_keys)) \<longrightarrow>
                      (\<exists>m\<le>length (steps a). get_prop (graph_nodes g ! m) ''id'' = JStr p)))"
  proof (intro exI [of _ c] conjI)
    show "get_prop g ''connections'' = JObj c" by (rule c)
    show "distinct (map fst c)" by (rule d)
    show "\<forall>(p, entry)\<in>set c.
                  entry = JObj [(''main'', JArr [JArr (out_edges g p)])]
                  \<and> out_edges g p \<noteq> []
                  \<and> (\<forall>e\<in>set (out_edges g p).
                        \<exists>j<length (steps a).
                          e = JObj [(''node'', JStr (String_of_number (j + 2))),
                                    (''type'', JStr ''main''), (''index'', JNum 0)]
                          \<and> get_prop (graph_nodes g ! (j + 1)) ''id''
                              = JStr (String_of_number (j + 2)))
                  \<and> ((\<forall>s\<in>set (steps a). \<forall>ks. dependsOn s = Some ks \<longrightarrow>
                         (\<forall>k\<in>set ks. k \<notin> set Object_prototype_keys)) \<longrightarrow>
                      (\<exists>m\<le>length (steps a). get_prop (graph_nodes g ! m) ''id'' = JStr p))"
    proof (rule ballI)
      fix x assume x: "x \<in> set c"
      obtain p entry where pe: "x = (p, entry)" by (cases x)
      with x have "(p, entry) \<in> set c" by simp
      from f7 [OF this] show "case x of (p, entry) \<Rightarrow>
                  entry = JObj [(''main'', JArr [JArr (out_edges g p)])]
                  \<and> out_edges g p \<noteq> []
                  \<and> (\<forall>e\<in>set (out_edges g p).
                        \<exists>j<length (steps a).
                          e = JObj [(''node'', JStr (String_of_number (j + 2))),
                                    (''type'', JStr ''main''), (''index'', JNum 0)]
                          \<and> get_prop (graph_nodes g ! (j + 1)) ''id''
                              = JStr (String_of_number (j + 2)))
                  \<and> ((\<forall>s\<in>set (steps a). \<forall>ks. dependsOn s = Some ks \<longrightarrow>
                         (\<forall>k\<in>set ks. k \<notin> set Object_prototype_keys)) \<longrightarrow>
                      (\<exists>m\<le>length (steps a). get_prop (graph_nodes g ! m) ''id'' = JStr p))"
        unfolding pe prod.case .
    qed
  qed
  from f1 f2 f3 f4 f5 f6 f8 show ?thesis by (intro conjI)
qed

theorem graph_field_names_witness:
  "\<exists>g. renderWorkflow
          \<lparr>name = ''w'', trigger = Webhook, cron = None,
           steps = [\<lparr>id' = Some ''a'', type = ''HTTP Request'', parameters = [],
                     dependsOn = Some [''trigger'']\<rparr>,
                    \<lparr>id' = None, type = ''Set'', parameters = [],
                     dependsOn = Some [''a'', ''trigger'']\<rparr>]\<rparr>
         = Inr g
       \<and> field_names g = [''nodes'', ''connections'']
       \<and> length (graph_nodes g) = 3
       \<and> field_names (graph_nodes g ! 1)
           = [''id'', ''name'', ''type'', ''typeVersion'', ''parameters'', ''position'']
       \<and> get_prop (graph_nodes g ! 1) ''type'' = JStr ''n8n-nodes-base.httpRequest''
       \<and> get_prop (graph_nodes g ! 2) ''type'' = JStr ''Set''
       \<and> field_names (get_prop g ''connections'') = [''1'', ''2'']
       \<and> get_prop (get_prop g ''connections'') ''1''
           = JObj [(''main'',
                    JArr [JArr [JObj [(''node'', JStr ''2''), (''type'', JStr ''main''),
                                      (''index'', JNum 0)],
                                JObj [(''node'', JStr ''3''), (''type'', JStr ''main''),
                                      (''index'', JNum 0)]]])]
       \<and> get_prop (get_prop g ''connections'') ''2''
           = JObj [(''main'',
                    JArr [JArr [JObj [(''node'', JStr ''3''), (''type'', JStr ''main''),
                                      (''index'', JNum 0)]]])]"
proof -
  let ?a = "\<lparr>name = ''w'', trigger = Webhook, cron = None,
           steps = [\<lparr>id' = Some ''a'', type = ''HTTP Request'', parameters = [],
                     dependsOn = Some [''trigger'']\<rparr>,
                    \<lparr>id' = None, type = ''Set'', parameters = [],
                     dependsOn = Some [''a'', ''trigger'']\<rparr>]\<rparr>"
  let ?g = "JObj [(''nodes'',
                 JArr [JObj [(''id'', JStr ''1''), (''name'', JStr ''Webhook''),
                             (''type'', JStr ''n8n-nodes-base.webhook''),
                             (''typeVersion'', JNum 1),
                             (''parameters'',
                              JObj [(''path'', JStr ''hook''), (''httpMethod'', JStr ''POST'')]),
                             (''position'', JArr [JNum 280, JNum 300])],
                       JObj [(''id'', JStr ''2''), (''name'', JStr ''HTTP Request''),
                             (''type'', JStr ''n8n-nodes-base.httpRequest''),
                             (''typeVersion'', JNum 1), (''parameters'', JObj []),
                             (''position'', JArr [JNum 500, JNum 300])],
                       JObj [(''id'', JStr ''3''), (''name'', JStr ''Set''),
                             (''type'', JStr ''Set''),
                             (''typeVersion'', JNum 1), (''parameters'', JObj []),
                             (''position'', JArr [JNum 720, JNum 300])]]),
                (''connections'',
                 JObj [(''1'', JObj [(''main'',
                          JArr [JArr [JObj [(''node'', JStr ''2''), (''type'', JStr ''main''),
                                            (''index'', JNum 0)],
                                      JObj [(''node'', JStr ''3''), (''type'', JStr ''main''),
                                            (''index'', JNum 0)]]])]),
                       (''2'', JObj [(''main'',
                          JArr [JArr [JObj [(''node'', JStr ''3''), (''type'', JStr ''main''),
                                            (''index'', JNum 0)]]])])])]"
  have r: "renderWorkflow ?a = Inr ?g" by code_simp
  note th = graph_field_names [OF r]
  from th have f1: "field_names ?g = [''nodes'', ''connections'']" by (rule conjunct1)
  from th have "length (graph_nodes ?g) = length (steps ?a) + 1"
    by (rule conjunct1 [OF conjunct2 [OF conjunct2]])
  then have f3: "length (graph_nodes ?g) = 3" by simp
  have rest: "field_names (graph_nodes ?g ! 1)
           = [''id'', ''name'', ''type'', ''typeVersion'', ''parameters'', ''position'']"
    "get_prop (graph_nodes ?g ! 1) ''type'' = JStr ''n8n-nodes-base.httpRequest''"
    "get_prop (graph_nodes ?g ! 2) ''type'' = JStr ''Set''"
    "field_names (get_prop ?g ''connections'') = [''1'', ''2'']"
    "get_prop (get_prop ?g ''connections'') ''1''
           = JObj [(''main'',
                    JArr [JArr [JObj [(''node'', JStr ''2''), (''type'', JStr ''main''),
                                      (''index'', JNum 0)],
                                JObj [(''node'', JStr ''3''), (''type'', JStr ''main''),
                                      (''index'', JNum 0)]]])]"
    "get_prop (get_prop ?g ''connections'') ''2''
           = JObj [(''main'',
                    JArr [JArr [JObj [(''node'', JStr ''3''), (''type'', JStr ''main''),
                                      (''index'', JNum 0)]]])]"
    by (simp_all add: graph_nodes_def get_prop_def field_names_def)
  from r f1 f3 rest show ?thesis by (intro exI [of _ ?g] conjI)
qed

text \<open>
  Claim C1 says that every plan whose steps all lack \<open>dependsOn\<close> is rendered as
  \<open>N + 1\<close> nodes joined in one chain. It fails at the plan with the single step of
  type \<open>"constructor"\<close>: \<open>NODE_SPECS["constructor"]\<close> is the inherited function \<open>Object\<close>,
  which has no \<open>defaults\<close>, and the renderer throws instead of returning two nodes.
  (For step types that are not property names of \<open>Object.prototype\<close> the chain is
  proved in \<open>renderWorkflow_linear_chain\<close>.)
\<close>

theorem linear_chain_plan_throws:
  "dependsOn \<lparr>id' = None, type = ''constructor'', parameters = [], dependsOn = None\<rparr> = None
   \<and> renderWorkflow
       \<lparr>name = ''w'', trigger = Manual, cron = None,
        steps = [\<lparr>id' = None, type = ''constructor'', parameters = [], dependsOn = None\<rparr>]\<rparr>
     = Inl TypeError"
  by code_simp

text \<open>
  Claim C2 says that a \<open>dependsOn\<close> token found neither as \<open>"trigger"\<close> nor in the
  step-key-to-id mapping falls back to the cursor \<open>prev\<close>. It fails at the token
  \<open>"constructor"\<close>: \<open>idByStep["constructor"]\<close> is the inherited function \<open>Object\<close>, which is
  truthy, so the edge to step \<open>"2"\<close> is filed under the text of that function and the
  trigger node \<open>"1"\<close> gets no edge. (What \<open>resolve\<close> does for the other tokens is proved
  in \<open>resolve_trigger\<close>, \<open>resolve_recorded\<close> and \<open>resolve_unresolved\<close>.)
\<close>

theorem dangling_inherited_token_no_fallback:
  "renderWorkflow
     \<lparr>name = ''w'', trigger = Manual, cron = None,
      steps = [\<lparr>id' = None, type = ''HTTP Request'', parameters = [],
                dependsOn = Some [''constructor'']\<rparr>]\<rparr>
   = Inr (JObj [(''nodes'',
                 JArr [JObj [(''id'', JStr ''1''), (''name'', JStr ''Manual Trigger''),
                             (''type'', JStr ''n8n-nodes-base.manualTrigger''),
                             (''typeVersion'', JNum 1),
                             (''position'', JArr [JNum 280, JNum 300])],
                       JObj [(''id'', JStr ''2''), (''name'', JStr ''HTTP Request''),
                             (''type'', JStr ''n8n-nodes-base.httpRequest''),
                             (''typeVersion'', JNum 1), (''parameters'', JObj []),
                             (''position'', JArr [JNum 500, JNum 300])]]),
                (''connections'',
                 JObj [(''function Object() { [native code] }'',
                        JObj [(''main'',
                          JArr [JArr [JObj [(''node'', JStr ''2''), (''type'', JStr ''main''),
                                            (''index'', JNum 0)]]])])])])
   \<and> map_of [(''HTTP Request-2'', ''2'')] ''constructor'' = None
   \<and> parents [(''HTTP Request-2'', ''2'')] ''1''
        \<lparr>id' = None, type = ''HTTP Request'', parameters = [],
         dependsOn = Some [''constructor'']\<rparr> \<noteq> [''1'']"
  by code_simp

text \<open>
  Claim C5 says that resolving a node type never fails and that an unknown type is
  rendered under its own name. It fails at the type \<open>"toString"\<close>, which is not in the
  catalogue: \<open>NODE_SPECS["toString"]\<close> is the inherited function, the made-up entry is
  not used, and building the node throws; so does rendering two steps of that type.
  (Known types and unknown types that are not property names of \<open>Object.prototype\<close>
  resolve as claimed: \<open>step_node_known_type\<close>, \<open>step_node_unknown_type\<close>.)
\<close>

theorem unknown_type_resolution_throws:
  "map_of NODE_SPECS ''toString'' = None
   \<and> step_node 2 \<lparr>id' = None, type = ''toString'', parameters = [], dependsOn = None\<rparr>
       = Inl TypeError
   \<and> renderWorkflow
       \<lparr>name = ''w'', trigger = Manual, cron = None,
        steps = [\<lparr>id' = None, type = ''toString'', parameters = [], dependsOn = None\<rparr>,
                 \<lparr>id' = None, type = ''toString'', parameters = [], dependsOn = None\<rparr>]\<rparr>
     = Inl TypeError"
  by code_simp

text \<open>
  Claim C9 says that the renderer returns a graph for every well-typed plan. It fails
  at a webhook plan whose second step has the type \<open>"hasOwnProperty"\<close>: the renderer
  throws a TypeError. (It returns a graph exactly when no step type is a property name
  of \<open>Object.prototype\<close>, \<open>renderWorkflow_Inl\<close>; in a returned graph every step node has
  an incoming edge, \<open>every_step_has_incoming_edge\<close>.)
\<close>

theorem render_raises_on_inherited_type:
  "renderWorkflow
     \<lparr>name = ''w'', trigger = Webhook, cron = None,
      steps = [\<lparr>id' = Some ''fetch'', type = ''HTTP Request'', parameters = [],
                dependsOn = None\<rparr>,
               \<lparr>id' = Some ''check'', type = ''hasOwnProperty'', parameters = [],
                dependsOn = Some [''fetch'']\<rparr>]\<rparr>
   = Inl TypeError"
  by code_simp

end
